theory Spec2Isabelle
  imports Main "HOL-Library.Monad_Syntax"
begin

section \<open>Neon Checkers: the rules engine of \<^verbatim>\<open>AI Project/checkers.py\<close>\<close>

text \<open>
  The board of the program is a Python list of rows, each row a list of integers:
  \<open>0\<close> is an empty square, \<open>1\<close> a Red man, \<open>2\<close> a Red king, \<open>-1\<close> a Blue man and
  \<open>-2\<close> a Blue king. Python integers are unbounded, so cells are \<^typ>\<open>int\<close>.
  A coordinate is a pair of Python integers, a path a list of coordinates and a move
  the triple \<open>(sr, sc, path)\<close>.

  Reading or writing a list out of range raises \<open>IndexError\<close> in Python. Every function
  of the model that indexes a board therefore returns an \<^typ>\<open>'a option\<close>, where
  \<^term>\<open>None\<close> stands for the raised \<open>IndexError\<close>.
\<close>

type_synonym board = "int list list"
type_synonym coord = "int \<times> int"
type_synonym path = "coord list"
type_synonym move = "int \<times> int \<times> path"

subsection \<open>Configuration and utilities\<close>

definition ROWS :: int where
  "ROWS = 8"

definition COLS :: int where
  "COLS = 8"

definition in_bounds :: "int \<Rightarrow> int \<Rightarrow> bool" where
  "in_bounds r c \<longleftrightarrow> 0 \<le> r \<and> r < ROWS \<and> 0 \<le> c \<and> c < COLS"

text \<open>
  Python list indexing: an index \<open>i\<close> with \<open>0 \<le> i < n\<close> names position \<open>i\<close>, an index
  with \<open>-n \<le> i < 0\<close> names position \<open>n + i\<close>, every other index raises.
\<close>

definition py_index :: "nat \<Rightarrow> int \<Rightarrow> nat option" where
  "py_index n i =
     (if 0 \<le> i \<and> i < int n then Some (nat i)
      else if - int n \<le> i \<and> i < 0 then Some (nat (int n + i))
      else None)"

definition getitem :: "'a list \<Rightarrow> int \<Rightarrow> 'a option" where
  "getitem xs i = map_option (\<lambda>k. xs ! k) (py_index (length xs) i)"

definition setitem :: "'a list \<Rightarrow> int \<Rightarrow> 'a \<Rightarrow> 'a list option" where
  "setitem xs i v = map_option (\<lambda>k. xs[k := v]) (py_index (length xs) i)"

text \<open>\<open>board[r][c]\<close> as an expression.\<close>

definition get2 :: "board \<Rightarrow> int \<Rightarrow> int \<Rightarrow> int option" where
  "get2 b r c = Option.bind (getitem b r) (\<lambda>row. getitem row c)"

text \<open>
  \<open>nb[r][c] = v\<close> as a statement, on a board whose rows are not shared (every board
  that the program assigns to is a fresh \<open>clone_board\<close> copy).
\<close>

definition set2 :: "board \<Rightarrow> int \<Rightarrow> int \<Rightarrow> int \<Rightarrow> board option" where
  "set2 b r c v =
     Option.bind (getitem b r) (\<lambda>row.
     Option.bind (setitem row c v) (\<lambda>row'. setitem b r row'))"

definition clone_board :: "board \<Rightarrow> board" where
  "clone_board b = map (\<lambda>row. row) b"

subsection \<open>Board setup\<close>

text \<open>The inner loops of \<open>initial_board\<close>: one row \<open>r\<close> gets \<open>v\<close> on its odd squares.\<close>

fun fill_cols :: "int \<Rightarrow> int \<Rightarrow> int list \<Rightarrow> board \<Rightarrow> board option" where
  "fill_cols v r [] b = Some b"
| "fill_cols v r (c # cs) b =
     (if (r + c) mod 2 = 1
      then Option.bind (set2 b r c v) (fill_cols v r cs)
      else fill_cols v r cs b)"

fun fill_rows :: "int \<Rightarrow> int list \<Rightarrow> board \<Rightarrow> board option" where
  "fill_rows v [] b = Some b"
| "fill_rows v (r # rs) b =
     Option.bind (fill_cols v r [0 .. COLS - 1] b) (fill_rows v rs)"

definition initial_board :: "board option" where
  "initial_board =
     Option.bind (fill_rows (- 1) [0 .. 2] (replicate (nat ROWS) (replicate (nat COLS) 0)))
       (fill_rows 1 [5 .. 7])"

subsection \<open>Move generation\<close>

definition man_dirs :: "int \<Rightarrow> (int \<times> int) list" where
  "man_dirs color = (if color = 1 then [(- 1, - 1), (- 1, 1)] else [(1, - 1), (1, 1)])"

definition king_dirs :: "(int \<times> int) list" where
  "king_dirs = [(- 1, - 1), (- 1, 1), (1, - 1), (1, 1)]"

text \<open>The loop over \<open>directions\<close> that collects the single-step moves.\<close>

fun normal_scan :: "board \<Rightarrow> int \<Rightarrow> int \<Rightarrow> (int \<times> int) list \<Rightarrow> path list option" where
  "normal_scan board r c [] = Some []"
| "normal_scan board r c ((dr, dc) # ds) =
     (let nr = r + dr; nc = c + dc in
      if in_bounds nr nc then
        (case get2 board nr nc of
           None \<Rightarrow> None
         | Some v \<Rightarrow>
             (if v = 0 then map_option (\<lambda>rest. [(nr, nc)] # rest) (normal_scan board r c ds)
              else normal_scan board r c ds))
      else normal_scan board r c ds)"

text \<open>The direction list that \<open>dfs\<close> derives from the piece it finds on its scratch board.\<close>

definition scan_dirs :: "int \<Rightarrow> (int \<times> int) list" where
  "scan_dirs pc =
     (if \<bar>pc\<bar> = 2 then [(- 1, - 1), (- 1, 1), (1, - 1), (1, 1)]
      else if pc > 0 then [(- 1, - 1), (- 1, 1)] else [(1, - 1), (1, 1)])"

text \<open>
  The jump on a clone: the piece is moved to the landing square, its old square and the
  middle square are cleared, and a man that lands on its last row is crowned.
\<close>

definition do_jump :: "board \<Rightarrow> int \<Rightarrow> int \<Rightarrow> int \<Rightarrow> int \<Rightarrow> int \<Rightarrow> int \<Rightarrow> board option" where
  "do_jump bd cr cc mr mc lr lc = do {
     let nb = clone_board bd;
     v \<leftarrow> get2 nb cr cc;
     nb \<leftarrow> set2 nb lr lc v;
     nb \<leftarrow> set2 nb cr cc 0;
     nb \<leftarrow> set2 nb mr mc 0;
     x \<leftarrow> get2 nb lr lc;
     nb \<leftarrow> (if x = 1 \<and> lr = 0 then set2 nb lr lc 2 else Some nb);
     y \<leftarrow> get2 nb lr lc;
     nb \<leftarrow> (if y = - 1 \<and> lr = ROWS - 1 then set2 nb lr lc (- 2) else Some nb);
     Some nb
   }"

text \<open>
  One iteration of the loop over \<open>scan_dirs\<close>, up to the recursive call: \<^term>\<open>None\<close> is
  a raised \<open>IndexError\<close>, \<^term>\<open>Some None\<close> a direction without a jump, and
  \<open>Some (Some (nb, lr, lc))\<close> a jump with its scratch board and landing square.
\<close>

definition try_jump ::
  "board \<Rightarrow> int \<Rightarrow> int \<Rightarrow> int \<Rightarrow> int \<times> int \<Rightarrow> (board \<times> int \<times> int) option option" where
  "try_jump bd cr cc pc d =
     (case d of (dr, dc) \<Rightarrow>
        let mr = cr + dr; mc = cc + dc; lr = cr + 2 * dr; lc = cc + 2 * dc in
        if in_bounds mr mc \<and> in_bounds lr lc then
          (case get2 bd mr mc of
             None \<Rightarrow> None
           | Some m \<Rightarrow>
               if m \<noteq> 0 \<and> m * pc < 0 then
                 (case get2 bd lr lc of
                    None \<Rightarrow> None
                  | Some l \<Rightarrow>
                      if l = 0 then
                        map_option (\<lambda>nb. Some (nb, lr, lc)) (do_jump bd cr cc mr mc lr lc)
                      else Some None)
               else Some None)
        else Some None)"

text \<open>
  The \<open>for\<close> loop of \<open>dfs\<close> with its two pieces of state: the flag \<open>found_any\<close> and the
  paths appended to \<open>capture_moves\<close> while the loop runs. \<open>tj\<close> is the test of one
  direction and \<open>rec\<close> the recursive call.
\<close>

fun for_dirs ::
  "('d \<Rightarrow> 'j option option) \<Rightarrow> ('j \<Rightarrow> path list option) \<Rightarrow> 'd list \<Rightarrow> (bool \<times> path list) option"
  where
  "for_dirs tj rec [] = Some (False, [])"
| "for_dirs tj rec (d # ds) =
     (case tj d of
        None \<Rightarrow> None
      | Some None \<Rightarrow> for_dirs tj rec ds
      | Some (Some j) \<Rightarrow>
          (case rec j of
             None \<Rightarrow> None
           | Some sub \<Rightarrow>
               (case for_dirs tj rec ds of
                  None \<Rightarrow> None
                | Some (found_any, caps) \<Rightarrow> Some (True, sub @ caps))))"

lemma for_dirs_cong [fundef_cong]:
  assumes "tj = tj'" "ds = ds'"
    and "\<And>d j. d \<in> set ds' \<Longrightarrow> tj' d = Some (Some j) \<Longrightarrow> rec j = rec' j"
  shows "for_dirs tj rec ds = for_dirs tj' rec' ds'"
proof -
  have "for_dirs tj' rec ds' = for_dirs tj' rec' ds'"
    using assms(3)
  proof (induction ds')
    case Nil
    show ?case by simp
  next
    case (Cons d ds)
    have IH: "for_dirs tj' rec ds = for_dirs tj' rec' ds"
      using Cons.prems by (intro Cons.IH) auto
    have here: "\<And>j. tj' d = Some (Some j) \<Longrightarrow> rec j = rec' j"
      using Cons.prems by auto
    show ?case
      by (cases "tj' d") (auto simp: IH here split: option.splits)
  qed
  then show ?thesis
    by (simp add: assms(1,2))
qed

text \<open>Number of occupied squares: the quantity that every jump decreases.\<close>

definition occupied :: "board \<Rightarrow> nat" where
  "occupied b = sum_list (map (\<lambda>row. length (filter (\<lambda>x. x \<noteq> 0) row)) b)"

subsection \<open>Positions inside the lists\<close>

text \<open>
  Auxiliary notions for the proofs: \<open>norm2\<close> resolves a pair of Python indices to the
  position it names in the nested list, \<open>at2\<close> and \<open>upd2\<close> read and write such a
  position.
\<close>

type_synonym pos = "nat \<times> nat"

definition valid :: "board \<Rightarrow> pos \<Rightarrow> bool" where
  "valid b k \<longleftrightarrow> fst k < length b \<and> snd k < length (b ! fst k)"

definition at2 :: "board \<Rightarrow> pos \<Rightarrow> int" where
  "at2 b k = b ! fst k ! snd k"

definition upd2 :: "board \<Rightarrow> pos \<Rightarrow> int \<Rightarrow> board" where
  "upd2 b k v = b[fst k := (b ! fst k)[snd k := v]]"

definition norm2 :: "board \<Rightarrow> int \<Rightarrow> int \<Rightarrow> pos option" where
  "norm2 b r c =
     Option.bind (py_index (length b) r) (\<lambda>i.
     Option.bind (py_index (length (b ! i)) c) (\<lambda>j. Some (i, j)))"

lemma py_index_less: "py_index n i = Some k \<Longrightarrow> k < n"
  by (auto simp: py_index_def split: if_splits)

lemma norm2_valid: "norm2 b r c = Some k \<Longrightarrow> valid b k"
  by (auto simp: norm2_def valid_def Option.bind_eq_Some_conv dest: py_index_less)

lemma get2_norm2: "get2 b r c = map_option (at2 b) (norm2 b r c)"
  by (cases "py_index (length b) r"; cases "py_index (length (b ! the (py_index (length b) r))) c")
     (auto simp: get2_def getitem_def norm2_def at2_def)

lemma set2_norm2: "set2 b r c v = map_option (\<lambda>k. upd2 b k v) (norm2 b r c)"
  by (cases "py_index (length b) r"; cases "py_index (length (b ! the (py_index (length b) r))) c")
     (auto simp: set2_def getitem_def setitem_def norm2_def upd2_def)

lemma length_upd2 [simp]: "length (upd2 b k v) = length b"
  by (simp add: upd2_def)

lemma length_row_upd2 [simp]: "length (upd2 b k v ! i) = length (b ! i)"
proof (cases "fst k < length b")
  case True
  then show ?thesis
    by (cases "i = fst k") (simp_all add: upd2_def)
next
  case False
  then have "length b \<le> fst k"
    by simp
  then show ?thesis
    by (simp add: upd2_def list_update_beyond)
qed

lemma valid_upd2 [simp]: "valid (upd2 b k v) k' = valid b k'"
  by (simp add: valid_def)

lemma norm2_upd2 [simp]: "norm2 (upd2 b k v) r c = norm2 b r c"
  by (simp add: norm2_def)

lemma at2_upd2: "valid b k \<Longrightarrow> at2 (upd2 b k v) k' = (if k' = k then v else at2 b k')"
  by (cases k; cases k') (auto simp: valid_def at2_def upd2_def nth_list_update)

lemma sum_list_update_nat:
  "i < length xs \<Longrightarrow> sum_list (xs[i := y]) + xs ! i = sum_list xs + (y::nat)"
  by (induction xs arbitrary: i) (auto split: nat.splits)

lemma count_row_update:
  "j < length row \<Longrightarrow>
   length (filter (\<lambda>x. x \<noteq> 0) (row[j := v])) + (if row ! j \<noteq> 0 then 1 else 0) =
   length (filter (\<lambda>x. x \<noteq> 0) row) + (if v \<noteq> (0::int) then 1 else 0)"
proof (induction row arbitrary: j)
  case Nil
  then show ?case by simp
next
  case (Cons a row)
  show ?case
  proof (cases j)
    case 0
    then show ?thesis by simp
  next
    case (Suc n)
    with Cons.prems have "n < length row" by simp
    from Cons.IH [OF this] Suc show ?thesis by (auto split: if_splits)
  qed
qed

lemma occupied_upd2:
  assumes "valid b k"
  shows "occupied (upd2 b k v) + (if at2 b k \<noteq> 0 then 1 else 0) =
         occupied b + (if v \<noteq> 0 then 1 else 0)"
proof -
  let ?f = "\<lambda>row. length (filter (\<lambda>x. x \<noteq> 0) row)"
  obtain i j where k: "k = (i, j)" by (cases k)
  from assms k have i: "i < length b" and j: "j < length (b ! i)"
    by (simp_all add: valid_def)
  have "occupied (upd2 b k v) = sum_list ((map ?f b)[i := ?f ((b ! i)[j := v])])"
    by (simp add: occupied_def upd2_def k map_update)
  moreover have "sum_list ((map ?f b)[i := ?f ((b ! i)[j := v])]) + ?f (b ! i) =
                 sum_list (map ?f b) + ?f ((b ! i)[j := v])"
    using sum_list_update_nat [of i "map ?f b" "?f ((b ! i)[j := v])"] i by simp
  moreover note count_row_update [OF j, of v]
  ultimately show ?thesis
    by (simp add: occupied_def at2_def k)
qed


definition crown :: "int \<Rightarrow> pos \<Rightarrow> board \<Rightarrow> board" where
  "crown lr kl b =
     (let b' = (if at2 b kl = 1 \<and> lr = 0 then upd2 b kl 2 else b)
      in if at2 b' kl = - 1 \<and> lr = ROWS - 1 then upd2 b' kl (- 2) else b')"

lemma do_jump_norm2:
  assumes "norm2 bd cr cc = Some kc" "norm2 bd mr mc = Some km" "norm2 bd lr lc = Some kl"
  shows "do_jump bd cr cc mr mc lr lc =
         Some (crown lr kl (upd2 (upd2 (upd2 bd kl (at2 bd kc)) kc 0) km 0))"
proof -
  have if_set: "(if P then set2 b lr lc w else Some b) = Some (if P then upd2 b kl w else b)"
    if "norm2 b lr lc = Some kl" for P b w
    using that by (simp add: set2_norm2)
  have norm_if: "norm2 (if P then upd2 b k w else b) r c = norm2 b r c" for P b k w r c
    by simp
  show ?thesis
    unfolding do_jump_def clone_board_def crown_def Let_def
    by (simp add: get2_norm2 set2_norm2 assms if_set norm_if split del: if_split)
qed

lemma try_jump_occupied:
  assumes "get2 bd cr cc = Some pc"
    and "try_jump bd cr cc pc d = Some (Some (nb, lr, lc))"
  shows "occupied nb < occupied bd"
proof -
  obtain dr dc where d: "d = (dr, dc)" by (cases d)
  define mr mc where "mr = cr + dr" and "mc = cc + dc"
  from assms(2) obtain m where
    m: "get2 bd mr mc = Some m" "m \<noteq> 0" "m * pc < 0"
    and l: "get2 bd lr lc = Some 0"
    and j: "do_jump bd cr cc mr mc lr lc = Some nb"
    unfolding try_jump_def d mr_def mc_def
    by (auto simp: Let_def split: if_splits option.splits)
  from assms(1) obtain kc where kc: "norm2 bd cr cc = Some kc" "at2 bd kc = pc"
    by (auto simp: get2_norm2)
  from m obtain km where km: "norm2 bd mr mc = Some km" "at2 bd km = m"
    by (auto simp: get2_norm2)
  from l obtain kl where kl: "norm2 bd lr lc = Some kl" "at2 bd kl = 0"
    by (auto simp: get2_norm2)
  note v = norm2_valid [OF kc(1)] norm2_valid [OF km(1)] norm2_valid [OF kl(1)]
  from m have pc: "pc \<noteq> 0" "m \<noteq> pc"
    by (auto simp: mult_less_0_iff)
  with kc km kl m have ne: "kl \<noteq> kc" "kl \<noteq> km" "km \<noteq> kc"
    by auto
  define b1 where "b1 = upd2 bd kl pc"
  define b2 where "b2 = upd2 b1 kc 0"
  define b3 where "b3 = upd2 b2 km 0"
  have o1: "occupied b1 = occupied bd + 1"
    using occupied_upd2 [OF v(3), of pc] kl pc by (simp add: b1_def)
  have o2: "occupied b2 + 1 = occupied b1"
    using occupied_upd2 [of b1 kc 0] v ne kc pc by (simp add: b2_def b1_def at2_upd2)
  have o3: "occupied b3 + 1 = occupied b2"
    using occupied_upd2 [of b2 km 0] v ne km m by (simp add: b3_def b2_def b1_def at2_upd2)
  have a3: "at2 b3 kl = pc"
    using v ne by (simp add: b3_def b2_def b1_def at2_upd2)
  have same: "occupied (upd2 b3 kl w) = occupied b3" if "w \<noteq> 0" for w
    using occupied_upd2 [of b3 kl w] v a3 pc that by (simp add: b3_def b2_def b1_def)
  from j have "nb = crown lr kl b3"
    by (simp add: do_jump_norm2 [OF kc(1) km(1) kl(1)] kc(2) b1_def b2_def b3_def)
  then have "nb = b3 \<or> nb = upd2 b3 kl 2 \<or> nb = upd2 b3 kl (- 2)"
    using v by (auto simp: crown_def Let_def at2_upd2 b1_def b2_def b3_def)
  then have "occupied nb = occupied b3"
    using same by auto
  with o1 o2 o3 show ?thesis
    by simp
qed

text \<open>
  The recursive capture search. The parameter \<open>visited\<close> of the source is passed along
  but never read, so the model leaves it out. The result is the list of paths that the
  call appends to \<open>capture_moves\<close>, in the order of the appends.
\<close>

function dfs :: "board \<Rightarrow> int \<Rightarrow> int \<Rightarrow> path \<Rightarrow> path list option" where
  "dfs bd cr cc path =
     (case get2 bd cr cc of
        None \<Rightarrow> None
      | Some pc \<Rightarrow>
          (case for_dirs (try_jump bd cr cc pc)
                  (\<lambda>(nb, lr, lc). dfs nb lr lc (path @ [(lr, lc)])) (scan_dirs pc) of
             None \<Rightarrow> None
           | Some (found_any, caps) \<Rightarrow>
               Some (if \<not> found_any \<and> path \<noteq> [] then caps @ [path] else caps)))"
  by pat_completeness auto
termination
  by (relation "measure (\<lambda>(bd, cr, cc, path). occupied bd)")
     (auto dest: try_jump_occupied)


declare dfs.simps [simp del]


definition get_piece_moves :: "board \<Rightarrow> int \<Rightarrow> int \<Rightarrow> (path list \<times> path list) option" where
  "get_piece_moves board r c =
     (case get2 board r c of
        None \<Rightarrow> None
      | Some piece \<Rightarrow>
          if piece = 0 then Some ([], [])
          else
            let color = (if piece > 0 then 1 else - 1);
                king = (\<bar>piece\<bar> = 2);
                directions = (if king then king_dirs else man_dirs color)
            in (case normal_scan board r c directions of
                  None \<Rightarrow> None
                | Some normal_moves \<Rightarrow>
                    (case dfs board r c [] of
                       None \<Rightarrow> None
                     | Some capture_moves \<Rightarrow> Some (normal_moves, capture_moves))))"

text \<open>
  The two nested loops of \<open>get_all_moves\<close> over the squares in row-major order; the
  result is the pair of lists \<open>(captures, normals)\<close> that the loops build.
\<close>

definition all_squares :: "(int \<times> int) list" where
  "all_squares = concat (map (\<lambda>r. map (\<lambda>c. (r, c)) [0 .. COLS - 1]) [0 .. ROWS - 1])"

fun collect_moves :: "board \<Rightarrow> int \<Rightarrow> (int \<times> int) list \<Rightarrow> (move list \<times> move list) option" where
  "collect_moves board player [] = Some ([], [])"
| "collect_moves board player ((r, c) # rest) =
     (case get2 board r c of
        None \<Rightarrow> None
      | Some v \<Rightarrow>
          if v * player > 0 then
            (case get_piece_moves board r c of
               None \<Rightarrow> None
             | Some (nm, cm) \<Rightarrow>
                 (case collect_moves board player rest of
                    None \<Rightarrow> None
                  | Some (captures, normals) \<Rightarrow>
                      Some (map (\<lambda>p. (r, c, p)) cm @ captures,
                            map (\<lambda>p. (r, c, p)) nm @ normals)))
          else collect_moves board player rest)"

definition get_all_moves :: "board \<Rightarrow> int \<Rightarrow> move list option" where
  "get_all_moves board player =
     (case collect_moves board player all_squares of
        None \<Rightarrow> None
      | Some (captures, normals) \<Rightarrow> Some (if captures \<noteq> [] then captures else normals))"

subsection \<open>Applying a move\<close>

text \<open>The loop of \<open>apply_move\<close> over the path, with the state \<open>(nb, cr, cc)\<close>.\<close>

fun walk_path :: "board \<Rightarrow> int \<Rightarrow> int \<Rightarrow> path \<Rightarrow> (board \<times> int \<times> int) option" where
  "walk_path nb cr cc [] = Some (nb, cr, cc)"
| "walk_path nb cr cc ((nr, nc) # rest) =
     (if \<bar>nr - cr\<bar> = 2 \<or> \<bar>nc - cc\<bar> = 2 then
        (case set2 nb ((nr + cr) div 2) ((nc + cc) div 2) 0 of
           None \<Rightarrow> None
         | Some nb' \<Rightarrow> walk_path nb' nr nc rest)
      else walk_path nb nr nc rest)"

definition apply_move :: "board \<Rightarrow> move \<Rightarrow> board option" where
  "apply_move board move =
     (case move of (sr, sc, path) \<Rightarrow> do {
        let nb = clone_board board;
        piece \<leftarrow> get2 nb sr sc;
        nb \<leftarrow> set2 nb sr sc 0;
        (nb, cr, cc) \<leftarrow> walk_path nb sr sc path;
        nb \<leftarrow> set2 nb cr cc piece;
        x \<leftarrow> get2 nb cr cc;
        nb \<leftarrow> (if x = 1 \<and> cr = 0 then set2 nb cr cc 2 else Some nb);
        y \<leftarrow> get2 nb cr cc;
        nb \<leftarrow> (if y = - 1 \<and> cr = ROWS - 1 then set2 nb cr cc (- 2) else Some nb);
        Some nb
      })"

subsection \<open>Terminal boards and the winner\<close>

text \<open>
  \<open>any(P(board[r][c]) for r in range(ROWS) for c in range(COLS))\<close>: the generator is
  consumed square by square and \<open>any\<close> stops at the first hit, so a square behind the
  first hit is never read.
\<close>

fun any_square :: "(int \<Rightarrow> bool) \<Rightarrow> board \<Rightarrow> (int \<times> int) list \<Rightarrow> bool option" where
  "any_square P board [] = Some False"
| "any_square P board ((r, c) # rest) =
     (case get2 board r c of
        None \<Rightarrow> None
      | Some v \<Rightarrow> if P v then Some True else any_square P board rest)"

definition is_terminal :: "board \<Rightarrow> bool option" where
  "is_terminal board = do {
     red \<leftarrow> any_square (\<lambda>v. v > 0) board all_squares;
     blue \<leftarrow> any_square (\<lambda>v. v < 0) board all_squares;
     Some (\<not> red \<or> \<not> blue)
   }"

text \<open>
  \<open>winner\<close> returns the string \<open>"Red"\<close> or \<open>"Blue"\<close>, or Python's \<open>None\<close>: the inner
  option is the returned value, the outer one the \<open>IndexError\<close>.
\<close>

definition winner :: "board \<Rightarrow> string option option" where
  "winner board = do {
     red \<leftarrow> any_square (\<lambda>v. v > 0) board all_squares;
     blue \<leftarrow> any_square (\<lambda>v. v < 0) board all_squares;
     Some (if red \<and> \<not> blue then Some ''Red''
           else if blue \<and> \<not> red then Some ''Blue''
           else None)
   }"

section \<open>Well-formed boards\<close>

text \<open>
  Every board of a game is an 8 by 8 grid: \<open>initial_board\<close> builds one and every
  operation keeps the shape. On such a board a square inside the bounds is read and
  written without an \<open>IndexError\<close>; \<open>cell\<close> and \<open>put\<close> name the value read and
  the board written.
\<close>

definition wf_board :: "board \<Rightarrow> bool" where
  "wf_board b \<longleftrightarrow> length b = nat ROWS \<and> (\<forall>row\<in>set b. length row = nat COLS)"

definition cell :: "board \<Rightarrow> int \<Rightarrow> int \<Rightarrow> int" where
  "cell b r c = at2 b (nat r, nat c)"

definition put :: "board \<Rightarrow> int \<Rightarrow> int \<Rightarrow> int \<Rightarrow> board" where
  "put b r c v = upd2 b (nat r, nat c) v"

lemma norm2_wf: "wf_board b \<Longrightarrow> in_bounds r c \<Longrightarrow> norm2 b r c = Some (nat r, nat c)"
  by (auto simp: wf_board_def in_bounds_def norm2_def py_index_def)

lemma valid_wf: "wf_board b \<Longrightarrow> in_bounds r c \<Longrightarrow> valid b (nat r, nat c)"
  by (auto dest: norm2_wf norm2_valid)

lemma get2_wf: "wf_board b \<Longrightarrow> in_bounds r c \<Longrightarrow> get2 b r c = Some (cell b r c)"
  by (simp add: get2_norm2 norm2_wf cell_def)

lemma set2_wf: "wf_board b \<Longrightarrow> in_bounds r c \<Longrightarrow> set2 b r c v = Some (put b r c v)"
  by (simp add: set2_norm2 norm2_wf put_def)

lemma wf_upd2: "wf_board b \<Longrightarrow> wf_board (upd2 b k v)"
proof -
  assume wf: "wf_board b"
  have "length row = nat COLS" if "row \<in> set (upd2 b k v)" for row
  proof -
    from that obtain i where "i < length b" "row = upd2 b k v ! i"
      by (auto simp: in_set_conv_nth)
    with wf show ?thesis
      by (simp add: wf_board_def)
  qed
  with wf show ?thesis
    by (simp add: wf_board_def)
qed

lemma wf_put [simp]: "wf_board b \<Longrightarrow> wf_board (put b r c v)"
  by (simp add: put_def wf_upd2)

lemma cell_put:
  assumes "wf_board b" "in_bounds r c" "in_bounds r' c'"
  shows "cell (put b r c v) r' c' = (if r' = r \<and> c' = c then v else cell b r' c')"
proof -
  have "(nat r', nat c') = (nat r, nat c) \<longleftrightarrow> r' = r \<and> c' = c"
    using assms(2,3) by (auto simp: in_bounds_def)
  then show ?thesis
    using at2_upd2 [OF valid_wf [OF assms(1,2)], of v "(nat r', nat c')"]
    by (simp add: cell_def put_def)
qed

lemma board_ext:
  assumes "wf_board b" "wf_board b'"
    and "\<And>r c. in_bounds r c \<Longrightarrow> cell b r c = cell b' r c"
  shows "b = b'"
proof (rule nth_equalityI)
  show "length b = length b'"
    using assms(1,2) by (simp add: wf_board_def)
next
  fix i assume i: "i < length b"
  then have i': "i < length b'"
    using assms(1,2) by (simp add: wf_board_def)
  have len: "length (b ! i) = nat COLS" "length (b' ! i) = nat COLS"
    using assms(1,2) i i' by (auto simp: wf_board_def)
  show "b ! i = b' ! i"
  proof (rule nth_equalityI)
    show "length (b ! i) = length (b' ! i)"
      using len by simp
  next
    fix j assume j: "j < length (b ! i)"
    have "in_bounds (int i) (int j)"
      using i j len assms(1) by (simp add: in_bounds_def wf_board_def ROWS_def COLS_def)
    from assms(3) [OF this] show "b ! i ! j = b' ! i ! j"
      by (simp add: cell_def at2_def)
  qed
qed

section \<open>Jumps and maximal capture chains\<close>

text \<open>
  \<open>chain_to bd cr cc q bd' cr' cc'\<close>: starting on the scratch board \<open>bd\<close> with the
  piece on \<open>(cr, cc)\<close>, the landing squares \<open>q\<close> are a sequence of jumps, each one
  available on the scratch board left by the one before, that ends on the board \<open>bd'\<close>
  with the piece on \<open>(cr', cc')\<close>, where no jump is available any more.
\<close>

definition crowned :: "int \<Rightarrow> int \<Rightarrow> int" where
  "crowned v lr = (if v = 1 \<and> lr = 0 then 2 else if v = - 1 \<and> lr = ROWS - 1 then - 2 else v)"

inductive chain_to :: "board \<Rightarrow> int \<Rightarrow> int \<Rightarrow> path \<Rightarrow> board \<Rightarrow> int \<Rightarrow> int \<Rightarrow> bool" where
  stop: "get2 bd cr cc = Some pc \<Longrightarrow>
         (\<forall>d\<in>set (scan_dirs pc). try_jump bd cr cc pc d = Some None) \<Longrightarrow>
         chain_to bd cr cc [] bd cr cc"
| hop: "get2 bd cr cc = Some pc \<Longrightarrow> d \<in> set (scan_dirs pc) \<Longrightarrow>
        try_jump bd cr cc pc d = Some (Some (nb, lr, lc)) \<Longrightarrow>
        chain_to nb lr lc q bd' cr' cc' \<Longrightarrow>
        chain_to bd cr cc ((lr, lc) # q) bd' cr' cc'"

lemma crown_eq:
  assumes "valid b k"
  shows "crown lr k b = upd2 b k (crowned (at2 b k) lr)"
proof -
  have id: "upd2 b k (at2 b k) = b"
    by (simp add: upd2_def at2_def)
  show ?thesis
    using assms by (auto simp: crown_def crowned_def Let_def at2_upd2 id)
qed

lemma scan_dirs_unit: "(dr, dc) \<in> set (scan_dirs pc) \<Longrightarrow> \<bar>dr\<bar> = 1 \<and> \<bar>dc\<bar> = 1"
  by (auto simp: scan_dirs_def split: if_splits)

definition jumped :: "board \<Rightarrow> int \<Rightarrow> int \<Rightarrow> int \<Rightarrow> int \<Rightarrow> board" where
  "jumped bd cr cc dr dc =
     put (put (put (put bd (cr + 2 * dr) (cc + 2 * dc) (cell bd cr cc)) cr cc 0)
            (cr + dr) (cc + dc) 0)
       (cr + 2 * dr) (cc + 2 * dc) (crowned (cell bd cr cc) (cr + 2 * dr))"

definition can_jump :: "board \<Rightarrow> int \<Rightarrow> int \<Rightarrow> int \<Rightarrow> int \<Rightarrow> int \<Rightarrow> bool" where
  "can_jump bd cr cc pc dr dc \<longleftrightarrow>
     in_bounds (cr + dr) (cc + dc) \<and> in_bounds (cr + 2 * dr) (cc + 2 * dc) \<and>
     cell bd (cr + dr) (cc + dc) * pc < 0 \<and> cell bd (cr + 2 * dr) (cc + 2 * dc) = 0"

lemma do_jump_wf:
  assumes wf: "wf_board bd" and c: "in_bounds cr cc"
    and m: "in_bounds (cr + dr) (cc + dc)" and l: "in_bounds (cr + 2 * dr) (cc + 2 * dc)"
    and d: "\<bar>dr\<bar> = 1" "\<bar>dc\<bar> = 1"
  shows "do_jump bd cr cc (cr + dr) (cc + dc) (cr + 2 * dr) (cc + 2 * dc) =
         Some (jumped bd cr cc dr dc)"
proof -
  define b3 where
    "b3 = put (put (put bd (cr + 2 * dr) (cc + 2 * dc) (cell bd cr cc)) cr cc 0) (cr + dr) (cc + dc) 0"
  have wf3: "wf_board b3"
    using wf by (simp add: b3_def)
  have ne: "dr \<noteq> 0" "dc \<noteq> 0"
    using d by auto
  have "cell b3 (cr + 2 * dr) (cc + 2 * dc) = cell bd cr cc"
    unfolding b3_def using wf c m l ne by (simp add: cell_put)
  then show ?thesis
    using do_jump_norm2 [OF norm2_wf [OF wf c] norm2_wf [OF wf m] norm2_wf [OF wf l]]
      crown_eq [OF valid_wf [OF wf3 l], of "cr + 2 * dr"]
    by (simp add: b3_def put_def cell_def jumped_def)
qed

lemma try_jump_wf:
  assumes wf: "wf_board bd" and c: "in_bounds cr cc" and d: "\<bar>dr\<bar> = 1" "\<bar>dc\<bar> = 1"
  shows "try_jump bd cr cc pc (dr, dc) =
         Some (if can_jump bd cr cc pc dr dc
               then Some (jumped bd cr cc dr dc, cr + 2 * dr, cc + 2 * dc) else None)"
proof (cases "in_bounds (cr + dr) (cc + dc) \<and> in_bounds (cr + 2 * dr) (cc + 2 * dc)")
  case False
  then show ?thesis
    by (auto simp: try_jump_def can_jump_def Let_def)
next
  case True
  then have m: "in_bounds (cr + dr) (cc + dc)" and l: "in_bounds (cr + 2 * dr) (cc + 2 * dc)"
    by simp_all
  have z: "x * pc < 0 \<Longrightarrow> x \<noteq> 0" for x :: int
    by auto
  show ?thesis
    using z [of "cell bd (cr + dr) (cc + dc)"]
    by (simp add: try_jump_def can_jump_def Let_def m l get2_wf [OF wf]
        do_jump_wf [OF wf c m l d])
qed

lemma cell_jumped:
  assumes wf: "wf_board bd" and c: "in_bounds cr cc"
    and m: "in_bounds (cr + dr) (cc + dc)" and l: "in_bounds (cr + 2 * dr) (cc + 2 * dc)"
    and d: "\<bar>dr\<bar> = 1" "\<bar>dc\<bar> = 1"
    and x: "in_bounds r c"
  shows "cell (jumped bd cr cc dr dc) r c =
           (if r = cr + 2 * dr \<and> c = cc + 2 * dc then crowned (cell bd cr cc) (cr + 2 * dr)
            else if (r = cr \<and> c = cc) \<or> (r = cr + dr \<and> c = cc + dc) then 0
            else cell bd r c)"
proof -
  have "dr \<noteq> 0" "dc \<noteq> 0"
    using d by auto
  then show ?thesis
    using wf c m l x by (simp add: jumped_def cell_put)
qed

lemma wf_jumped: "wf_board bd \<Longrightarrow> wf_board (jumped bd cr cc dr dc)"
  by (simp add: jumped_def)

lemma for_dirs_total:
  assumes "\<And>d. d \<in> set ds \<Longrightarrow> tj d \<noteq> None"
    and "\<And>d j. d \<in> set ds \<Longrightarrow> tj d = Some (Some j) \<Longrightarrow> rec j \<noteq> None"
  shows "for_dirs tj rec ds \<noteq> None"
  using assms
proof (induction ds)
  case Nil
  show ?case by simp
next
  case (Cons d ds)
  have "for_dirs tj rec ds \<noteq> None"
    using Cons.prems by (intro Cons.IH) auto
  moreover have "tj d \<noteq> None" "\<And>j. tj d = Some (Some j) \<Longrightarrow> rec j \<noteq> None"
    using Cons.prems by auto
  ultimately show ?case
    by (auto split: option.splits)
qed

lemma for_dirs_result:
  assumes "for_dirs tj rec ds = Some (found, caps)"
  shows "(found \<longleftrightarrow> (\<exists>d\<in>set ds. \<exists>j. tj d = Some (Some j))) \<and>
         (\<not> found \<longrightarrow> caps = []) \<and>
         set caps = {p. \<exists>d\<in>set ds. \<exists>j ps. tj d = Some (Some j) \<and> rec j = Some ps \<and> p \<in> set ps}"
  using assms
proof (induction ds arbitrary: found caps)
  case Nil
  then show ?case by simp
next
  case (Cons d ds)
  show ?case
  proof (cases "tj d")
    case None
    with Cons.prems show ?thesis by simp
  next
    case (Some oj)
    show ?thesis
    proof (cases oj)
      case None
      with Some Cons.prems have "for_dirs tj rec ds = Some (found, caps)"
        by simp
      from Cons.IH [OF this] Some None show ?thesis
        by auto
    next
      case (Some j)
      with \<open>tj d = Some oj\<close> Cons.prems obtain sub f' caps' where
        sub: "rec j = Some sub" and rest: "for_dirs tj rec ds = Some (f', caps')"
        and res: "found = True" "caps = sub @ caps'"
        by (auto split: option.splits)
      from Cons.IH [OF rest] sub res Some \<open>tj d = Some oj\<close> show ?thesis
        by auto
    qed
  qed
qed

definition jump_chains :: "board \<Rightarrow> int \<Rightarrow> int \<Rightarrow> path set" where
  "jump_chains bd cr cc = {q. \<exists>bd' cr' cc'. chain_to bd cr cc q bd' cr' cc'}"

lemma chains_stop:
  assumes "get2 bd cr cc = Some pc"
    and "\<forall>d\<in>set (scan_dirs pc). try_jump bd cr cc pc d = Some None"
  shows "jump_chains bd cr cc = {[]}"
proof -
  have "q = []" if "chain_to bd cr cc q bd' cr' cc'" for q bd' cr' cc'
    using that assms by cases auto
  moreover have "chain_to bd cr cc [] bd cr cc"
    using assms by (rule chain_to.stop)
  ultimately show ?thesis
    unfolding jump_chains_def by blast
qed

lemma chains_hop:
  assumes "get2 bd cr cc = Some pc"
    and "d0 \<in> set (scan_dirs pc)" "try_jump bd cr cc pc d0 = Some (Some j0)"
  shows "jump_chains bd cr cc =
         {(lr, lc) # q | d nb lr lc q. d \<in> set (scan_dirs pc) \<and>
            try_jump bd cr cc pc d = Some (Some (nb, lr, lc)) \<and> q \<in> jump_chains nb lr lc}"
    (is "_ = ?R")
proof (rule set_eqI, rule iffI)
  fix q assume "q \<in> jump_chains bd cr cc"
  then obtain bd' cr' cc' where "chain_to bd cr cc q bd' cr' cc'"
    unfolding jump_chains_def by blast
  then show "q \<in> ?R"
  proof cases
    case (stop pc')
    with assms show ?thesis by auto
  next
    case (hop pc' d nb lr lc q')
    with assms(1) have "pc' = pc" by simp
    with hop show ?thesis
      unfolding jump_chains_def by blast
  qed
next
  fix q assume "q \<in> ?R"
  then obtain d nb lr lc q' where q: "q = (lr, lc) # q'" "d \<in> set (scan_dirs pc)"
    "try_jump bd cr cc pc d = Some (Some (nb, lr, lc))" "q' \<in> jump_chains nb lr lc"
    by blast
  from q(4) obtain bd' cr' cc' where "chain_to nb lr lc q' bd' cr' cc'"
    unfolding jump_chains_def by blast
  from chain_to.hop [OF assms(1) q(2,3) this] show "q \<in> jump_chains bd cr cc"
    unfolding jump_chains_def q(1) by blast
qed

lemma try_jump_scan:
  assumes "wf_board bd" "in_bounds cr cc" "d \<in> set (scan_dirs pc)"
  shows "try_jump bd cr cc pc d =
         Some (if can_jump bd cr cc pc (fst d) (snd d)
               then Some (jumped bd cr cc (fst d) (snd d), cr + 2 * fst d, cc + 2 * snd d)
               else None)"
proof -
  obtain dr dc where d: "d = (dr, dc)" by (cases d)
  with assms(3) have "\<bar>dr\<bar> = 1" "\<bar>dc\<bar> = 1"
    by (auto dest: scan_dirs_unit)
  from try_jump_wf [OF assms(1,2) this] show ?thesis
    by (simp add: d)
qed

lemma dfs_chains:
  assumes "wf_board bd" "in_bounds cr cc"
  shows "\<exists>ps. dfs bd cr cc path = Some ps \<and>
           set ps = {path @ q | q. q \<in> jump_chains bd cr cc \<and> path @ q \<noteq> []}"
  using assms
proof (induction bd cr cc path rule: dfs.induct)
  case (1 bd cr cc path)
  define pc where "pc = cell bd cr cc"
  define tj where "tj = try_jump bd cr cc pc"
  define rec where "rec = (\<lambda>(nb, lr, lc). dfs nb lr lc (path @ [(lr, lc)]))"
  have g: "get2 bd cr cc = Some pc"
    using "1.prems" by (simp add: get2_wf pc_def)
  have tj: "tj d = Some (if can_jump bd cr cc pc (fst d) (snd d)
               then Some (jumped bd cr cc (fst d) (snd d), cr + 2 * fst d, cc + 2 * snd d)
               else None)" if "d \<in> set (scan_dirs pc)" for d
    unfolding tj_def using "1.prems" that by (rule try_jump_scan)
  have sub: "wf_board nb \<and> in_bounds lr lc"
    if "d \<in> set (scan_dirs pc)" "tj d = Some (Some (nb, lr, lc))" for d nb lr lc
    using tj [OF that(1)] that(2) "1.prems"(1)
    by (auto simp: can_jump_def wf_jumped split: if_splits)
  have IH: "\<exists>ps. rec (nb, lr, lc) = Some ps \<and>
              set ps = {(path @ [(lr, lc)]) @ q | q. q \<in> jump_chains nb lr lc \<and> (path @ [(lr, lc)]) @ q \<noteq> []}"
    if "d \<in> set (scan_dirs pc)" "tj d = Some (Some (nb, lr, lc))" for d nb lr lc
    unfolding rec_def prod.case
    using "1.IH" [OF g that(1) that(2) [unfolded tj_def] refl refl] sub [OF that]
    by blast
  have "for_dirs tj rec (scan_dirs pc) \<noteq> None"
  proof (rule for_dirs_total)
    fix d assume "d \<in> set (scan_dirs pc)"
    then show "tj d \<noteq> None" by (simp add: tj)
  next
    fix d j assume "d \<in> set (scan_dirs pc)" "tj d = Some (Some j)"
    then show "rec j \<noteq> None"
      using IH [of d "fst j" "fst (snd j)" "snd (snd j)"] by auto
  qed
  then obtain found caps where fd: "for_dirs tj rec (scan_dirs pc) = Some (found, caps)"
    by auto
  note res = for_dirs_result [OF fd]
  have dfs_eq: "dfs bd cr cc path =
      Some (if \<not> found \<and> path \<noteq> [] then caps @ [path] else caps)"
    using fd by (subst dfs.simps) (simp add: g tj_def rec_def)
  show ?case
  proof (cases found)
    case False
    with res have none: "\<forall>d\<in>set (scan_dirs pc). tj d = Some None" and caps: "caps = []"
      using tj by (auto split: if_splits)
    have "jump_chains bd cr cc = {[]}"
      using g none [unfolded tj_def] by (rule chains_stop)
    with False caps dfs_eq show ?thesis
      by auto
  next
    case True
    with res obtain d0 j0 where d0: "d0 \<in> set (scan_dirs pc)" "tj d0 = Some (Some j0)"
      by blast
    note ch = chains_hop [OF g d0(1) d0(2) [unfolded tj_def], folded tj_def]
    have "set caps = {path @ q | q. q \<in> jump_chains bd cr cc \<and> path @ q \<noteq> []}" (is "_ = ?R")
    proof (rule set_eqI, rule iffI)
      fix p assume "p \<in> set caps"
      with res obtain d j ps where p: "d \<in> set (scan_dirs pc)" "tj d = Some (Some j)"
        "rec j = Some ps" "p \<in> set ps"
        by auto
      obtain nb lr lc where j: "j = (nb, lr, lc)" by (cases j)
      from IH [OF p(1) p(2) [unfolded j]] p(3,4) j obtain q where
        "p = (path @ [(lr, lc)]) @ q" "q \<in> jump_chains nb lr lc"
        by auto
      then have "p = path @ (lr, lc) # q" "(lr, lc) # q \<in> jump_chains bd cr cc"
        unfolding ch using p(1,2) j by (simp, cases d, blast)
      then show "p \<in> ?R"
        by blast
    next
      fix p assume "p \<in> ?R"
      then obtain d nb lr lc q where p: "p = path @ (lr, lc) # q" "d \<in> set (scan_dirs pc)"
        "tj d = Some (Some (nb, lr, lc))" "q \<in> jump_chains nb lr lc"
        unfolding ch by blast
      from IH [OF p(2,3)] obtain ps where ps: "rec (nb, lr, lc) = Some ps"
        "set ps = {(path @ [(lr, lc)]) @ q | q. q \<in> jump_chains nb lr lc \<and> (path @ [(lr, lc)]) @ q \<noteq> []}"
        by blast
      from p(1,4) ps(2) have "p \<in> set ps"
        by auto
      with p(2,3) ps(1) show "p \<in> set caps"
        using res by blast
    qed
    with True dfs_eq show ?thesis
      by simp
  qed
qed

section \<open>Terminal boards\<close>

definition has_piece :: "board \<Rightarrow> int \<Rightarrow> bool" where
  "has_piece b side \<longleftrightarrow>
     list_ex (\<lambda>(r, c). case get2 b r c of None \<Rightarrow> False | Some v \<Rightarrow> v * side > 0) all_squares"

definition side_name :: "int \<Rightarrow> string" where
  "side_name player = (if player = 1 then ''Red'' else ''Blue'')"

definition empty_board :: board where
  "empty_board = replicate (nat ROWS) (replicate (nat COLS) 0)"

lemma set_all_squares: "set all_squares = {(r, c). in_bounds r c}"
  by (auto simp: all_squares_def in_bounds_def)

lemma any_square_wf:
  assumes "wf_board b" "\<forall>(r, c)\<in>set sq. in_bounds r c"
  shows "any_square P b sq = Some (\<exists>(r, c)\<in>set sq. P (cell b r c))"
  using assms(2)
proof (induction sq)
  case Nil
  show ?case by simp
next
  case (Cons x sq)
  obtain r c where x: "x = (r, c)" by (cases x)
  with Cons.prems have "in_bounds r c" by simp
  with Cons x assms(1) show ?case
    by (simp add: get2_wf)
qed

lemma has_piece_wf:
  assumes "wf_board b"
  shows "has_piece b side \<longleftrightarrow> (\<exists>r c. in_bounds r c \<and> cell b r c * side > 0)"
proof -
  have "(case get2 b r c of None \<Rightarrow> False | Some v \<Rightarrow> v * side > 0) \<longleftrightarrow> cell b r c * side > 0"
    if "in_bounds r c" for r c
    using that assms by (simp add: get2_wf)
  then show ?thesis
    unfolding has_piece_def list_ex_iff set_all_squares by auto
qed

lemma red_blue_wf:
  assumes "wf_board b"
  shows "any_square (\<lambda>v. v > 0) b all_squares = Some (has_piece b 1)"
    and "any_square (\<lambda>v. v < 0) b all_squares = Some (has_piece b (- 1))"
  using assms by (auto simp: any_square_wf has_piece_wf set_all_squares)

lemma wf_empty_board: "wf_board empty_board"
  by (simp add: wf_board_def empty_board_def)

text \<open>
  Claim C6. On a well-formed board on which one side has a piece and the other side has
  none, \<open>is_terminal\<close> returns true and \<open>winner\<close> returns the name of the side that
  still has pieces: \<open>"Red"\<close> for side \<open>1\<close>, \<open>"Blue"\<close> for side \<open>-1\<close>.
\<close>

theorem lone_side_wins:
  assumes "wf_board b" "side = 1 \<or> side = - 1"
    and "has_piece b side" "\<not> has_piece b (- side)"
  shows "is_terminal b = Some True \<and> winner b = Some (Some (side_name side))"
  using assms by (auto simp: is_terminal_def winner_def red_blue_wf side_name_def)

definition red_only :: board where
  "red_only = put empty_board 4 3 1"

text \<open>A board with a single Red man: Red has pieces, Blue has none, Red wins.\<close>

theorem lone_side_wins_witness:
  "wf_board red_only \<and> has_piece red_only 1 \<and> \<not> has_piece red_only (- 1) \<and>
   is_terminal red_only = Some True \<and> winner red_only = Some (Some ''Red'')"
proof -
  have 1: "wf_board red_only"
    by (simp add: red_only_def wf_empty_board)
  have 2: "has_piece red_only 1"
    by code_simp
  have 3: "\<not> has_piece red_only (- 1)"
    by code_simp
  from lone_side_wins [OF 1 _ 2, of ] 3 1 2 show ?thesis
    by (simp add: side_name_def)
qed

text \<open>
  Claim C10. On a well-formed board \<open>winner\<close> returns \<open>"Red"\<close> exactly when Red has a
  piece and Blue has none, \<open>"Blue"\<close> exactly when Blue has a piece and Red has none, and
  \<open>None\<close> in every other case, so it returns a side exactly when one side alone has a
  piece; \<open>is_terminal\<close> is true exactly when some side has no piece. On a board without
  any piece \<open>is_terminal\<close> is true while \<open>winner\<close> is \<open>None\<close>.
\<close>

theorem winner_iff_one_side:
  assumes "wf_board b"
  shows "winner b =
           Some (if has_piece b 1 \<and> \<not> has_piece b (- 1) then Some ''Red''
                 else if has_piece b (- 1) \<and> \<not> has_piece b 1 then Some ''Blue''
                 else None) \<and>
         (winner b = Some (Some ''Red'') \<longleftrightarrow> has_piece b 1 \<and> \<not> has_piece b (- 1)) \<and>
         (winner b = Some (Some ''Blue'') \<longleftrightarrow> has_piece b (- 1) \<and> \<not> has_piece b 1) \<and>
         ((\<exists>name. winner b = Some (Some name)) \<longleftrightarrow> has_piece b 1 \<noteq> has_piece b (- 1)) \<and>
         (winner b = Some None \<longleftrightarrow> has_piece b 1 = has_piece b (- 1)) \<and>
         is_terminal b = Some (\<not> has_piece b 1 \<or> \<not> has_piece b (- 1)) \<and>
         (\<not> has_piece b 1 \<and> \<not> has_piece b (- 1) \<longrightarrow>
            is_terminal b = Some True \<and> winner b = Some None)"
proof -
  have w: "winner b =
           Some (if has_piece b 1 \<and> \<not> has_piece b (- 1) then Some ''Red''
                 else if has_piece b (- 1) \<and> \<not> has_piece b 1 then Some ''Blue''
                 else None)"
    using assms by (simp add: winner_def red_blue_wf)
  have t: "is_terminal b = Some (\<not> has_piece b 1 \<or> \<not> has_piece b (- 1))"
    using assms by (simp add: is_terminal_def red_blue_wf)
  show ?thesis
    unfolding w t by auto
qed

definition blue_only :: board where
  "blue_only = put empty_board 3 4 (- 2)"

text \<open>
  The empty board is terminal and has no winner; a board with a single Red man is won by
  Red, a board with a single Blue king by Blue.
\<close>

theorem winner_iff_one_side_witness:
  "wf_board empty_board \<and> \<not> has_piece empty_board 1 \<and> \<not> has_piece empty_board (- 1) \<and>
   is_terminal empty_board = Some True \<and> winner empty_board = Some None \<and>
   wf_board red_only \<and> winner red_only = Some (Some ''Red'') \<and>
   wf_board blue_only \<and> winner blue_only = Some (Some ''Blue'')"
proof -
  have e: "\<not> has_piece empty_board 1" "\<not> has_piece empty_board (- 1)"
    by code_simp+
  have r: "has_piece red_only 1" "\<not> has_piece red_only (- 1)"
    by code_simp+
  have b: "has_piece blue_only (- 1)" "\<not> has_piece blue_only 1"
    by code_simp+
  have wr: "wf_board red_only"
    by (simp add: red_only_def wf_empty_board)
  have wb: "wf_board blue_only"
    by (simp add: blue_only_def wf_empty_board)
  from winner_iff_one_side [OF wf_empty_board] e
  have 1: "is_terminal empty_board = Some True" "winner empty_board = Some None"
    by simp_all
  from winner_iff_one_side [OF wr] r have 2: "winner red_only = Some (Some ''Red'')"
    by simp
  from winner_iff_one_side [OF wb] b have 3: "winner blue_only = Some (Some ''Blue'')"
    by simp
  from wf_empty_board e 1 wr 2 wb 3 show ?thesis
    by simp
qed

section \<open>The forced-capture rule\<close>

text \<open>
  The capture and normal moves of a side, piece by piece in the order of
  \<open>all_squares\<close>, as the two lists that \<open>get_all_moves\<close> chooses between.
\<close>

definition piece_captures :: "board \<Rightarrow> int \<Rightarrow> int \<Rightarrow> path list" where
  "piece_captures b r c = (case get_piece_moves b r c of None \<Rightarrow> [] | Some (nm, cm) \<Rightarrow> cm)"

definition piece_normals :: "board \<Rightarrow> int \<Rightarrow> int \<Rightarrow> path list" where
  "piece_normals b r c = (case get_piece_moves b r c of None \<Rightarrow> [] | Some (nm, cm) \<Rightarrow> nm)"

definition own_squares :: "board \<Rightarrow> int \<Rightarrow> (int \<times> int) list" where
  "own_squares b player =
     filter (\<lambda>(r, c). case get2 b r c of None \<Rightarrow> False | Some v \<Rightarrow> v * player > 0) all_squares"

definition side_captures :: "board \<Rightarrow> int \<Rightarrow> move list" where
  "side_captures b player =
     concat (map (\<lambda>(r, c). map (\<lambda>p. (r, c, p)) (piece_captures b r c)) (own_squares b player))"

definition side_normals :: "board \<Rightarrow> int \<Rightarrow> move list" where
  "side_normals b player =
     concat (map (\<lambda>(r, c). map (\<lambda>p. (r, c, p)) (piece_normals b r c)) (own_squares b player))"

definition piece_dirs :: "int \<Rightarrow> (int \<times> int) list" where
  "piece_dirs piece = (if \<bar>piece\<bar> = 2 then king_dirs else man_dirs (if piece > 0 then 1 else - 1))"

lemma normal_scan_wf:
  assumes "wf_board b"
  shows "normal_scan b r c ds =
         Some (map (\<lambda>(dr, dc). [(r + dr, c + dc)])
                (filter (\<lambda>(dr, dc). in_bounds (r + dr) (c + dc) \<and> cell b (r + dr) (c + dc) = 0) ds))"
proof (induction ds)
  case Nil
  show ?case by simp
next
  case (Cons d ds)
  obtain dr dc where d: "d = (dr, dc)" by (cases d)
  show ?case
    using Cons assms by (simp add: d Let_def get2_wf)
qed

lemma get_piece_moves_wf:
  assumes "wf_board b" "in_bounds r c"
  shows "\<exists>nm cm. get_piece_moves b r c = Some (nm, cm) \<and>
           nm = (if cell b r c = 0 then []
                 else map (\<lambda>(dr, dc). [(r + dr, c + dc)])
                        (filter (\<lambda>(dr, dc). in_bounds (r + dr) (c + dc) \<and> cell b (r + dr) (c + dc) = 0)
                           (piece_dirs (cell b r c)))) \<and>
           set cm = {q \<in> jump_chains b r c. q \<noteq> []}"
proof (cases "cell b r c = 0")
  case True
  have "try_jump b r c 0 d = Some None" if "d \<in> set (scan_dirs 0)" for d
    using try_jump_scan [OF assms that] by (simp add: can_jump_def)
  with True have "jump_chains b r c = {[]}"
    using chains_stop [of b r c 0] assms by (simp add: get2_wf)
  with True show ?thesis
    using assms by (simp add: get_piece_moves_def get2_wf)
next
  case False
  from dfs_chains [OF assms, of "[]"] obtain cm where
    "dfs b r c [] = Some cm" "set cm = {q \<in> jump_chains b r c. q \<noteq> []}"
    by auto
  with False show ?thesis
    using assms by (simp add: get_piece_moves_def get2_wf normal_scan_wf piece_dirs_def Let_def)
qed

lemma collect_moves_wf:
  assumes "wf_board b" "\<forall>(r, c)\<in>set sq. in_bounds r c"
  shows "collect_moves b player sq =
         Some (concat (map (\<lambda>(r, c). map (\<lambda>p. (r, c, p)) (piece_captures b r c))
                  (filter (\<lambda>(r, c). case get2 b r c of None \<Rightarrow> False | Some v \<Rightarrow> v * player > 0) sq)),
               concat (map (\<lambda>(r, c). map (\<lambda>p. (r, c, p)) (piece_normals b r c))
                  (filter (\<lambda>(r, c). case get2 b r c of None \<Rightarrow> False | Some v \<Rightarrow> v * player > 0) sq)))"
  using assms(2)
proof (induction sq)
  case Nil
  show ?case by simp
next
  case (Cons x sq)
  obtain r c where x: "x = (r, c)" by (cases x)
  with Cons.prems have rc: "in_bounds r c" by simp
  from get_piece_moves_wf [OF assms(1) rc] obtain nm cm where
    "get_piece_moves b r c = Some (nm, cm)" by blast
  with Cons rc assms(1) show ?case
    by (simp add: x get2_wf piece_captures_def piece_normals_def)
qed

lemma capture_first_hop:
  assumes "wf_board b" "in_bounds r c" "q \<in> jump_chains b r c" "q \<noteq> []"
  shows "\<bar>fst (hd q) - r\<bar> = 2"
proof -
  from assms(3) obtain bd' cr' cc' where "chain_to b r c q bd' cr' cc'"
    unfolding jump_chains_def by blast
  then show ?thesis
  proof cases
    case (stop pc)
    with assms(4) show ?thesis by simp
  next
    case (hop pc d nb lr lc q')
    from try_jump_scan [OF assms(1,2) hop(3)] hop(4) have "lr = r + 2 * fst d"
      by (auto split: if_splits)
    moreover from hop(3) have "\<bar>fst d\<bar> = 1"
      using scan_dirs_unit [of "fst d" "snd d" pc] by simp
    ultimately show ?thesis
      using hop(1) by auto
  qed
qed

lemma piece_dirs_unit: "(dr, dc) \<in> set (piece_dirs pc) \<Longrightarrow> \<bar>dr\<bar> = 1 \<and> \<bar>dc\<bar> = 1"
  by (auto simp: piece_dirs_def king_dirs_def man_dirs_def split: if_splits)

lemma captures_not_normals:
  assumes "wf_board b" "in_bounds r c" "p \<in> set (piece_captures b r c)"
  shows "p \<notin> set (piece_normals b r c)"
proof
  assume n: "p \<in> set (piece_normals b r c)"
  from get_piece_moves_wf [OF assms(1,2)] obtain nm cm where
    g: "get_piece_moves b r c = Some (nm, cm)"
    and nm: "nm = (if cell b r c = 0 then []
                 else map (\<lambda>(dr, dc). [(r + dr, c + dc)])
                        (filter (\<lambda>(dr, dc). in_bounds (r + dr) (c + dc) \<and> cell b (r + dr) (c + dc) = 0)
                           (piece_dirs (cell b r c))))"
    and cm: "set cm = {q \<in> jump_chains b r c. q \<noteq> []}"
    by blast
  from assms(3) g cm have "p \<in> jump_chains b r c" "p \<noteq> []"
    by (auto simp: piece_captures_def)
  then have two: "\<bar>fst (hd p) - r\<bar> = 2"
    using capture_first_hop [OF assms(1,2)] by blast
  from n g nm obtain dr dc where "(dr, dc) \<in> set (piece_dirs (cell b r c))" "p = [(r + dr, c + dc)]"
    by (auto simp: piece_normals_def split: if_splits)
  with piece_dirs_unit [OF this(1)] two show False
    by auto
qed

text \<open>
  Claim C1. On a well-formed board \<open>get_all_moves\<close> returns the capture moves of all
  pieces of the side when there is at least one, and none of them is a normal move of its
  piece; when no piece of the side has a capture, it returns the normal moves of all
  pieces of the side (both in the row-major order of the squares).
\<close>

theorem forced_capture:
  assumes "wf_board b"
  shows "get_all_moves b player =
           Some (if side_captures b player \<noteq> [] then side_captures b player
                 else side_normals b player) \<and>
         set (side_captures b player) \<inter> set (side_normals b player) = {}"
proof -
  have sq: "\<forall>(r, c)\<in>set all_squares. in_bounds r c"
    by (simp add: set_all_squares)
  have "m \<notin> set (side_normals b player)" if "m \<in> set (side_captures b player)" for m
  proof -
    from that obtain r c p where m: "m = (r, c, p)" "(r, c) \<in> set (own_squares b player)"
      "p \<in> set (piece_captures b r c)"
      by (auto simp: side_captures_def)
    then have "in_bounds r c"
      using sq by (auto simp: own_squares_def)
    from captures_not_normals [OF assms this m(3)] show ?thesis
      by (auto simp: side_normals_def m(1))
  qed
  then have "set (side_captures b player) \<inter> set (side_normals b player) = {}"
    by blast
  moreover have "get_all_moves b player =
           Some (if side_captures b player \<noteq> [] then side_captures b player
                 else side_normals b player)"
  proof -
    have "collect_moves b player all_squares =
          Some (side_captures b player, side_normals b player)"
      by (simp add: collect_moves_wf [OF assms sq] side_captures_def side_normals_def
          own_squares_def)
    then show ?thesis
      by (simp add: get_all_moves_def)
  qed
  ultimately show ?thesis
    by simp
qed

definition capture_board :: board where
  "capture_board = put (put (put empty_board 2 1 1) 1 2 (- 1)) 5 4 1"


text \<open>
  Red has a man that can capture and another one that can only step: the result is the
  single capture.
\<close>

theorem forced_capture_witness:
  "wf_board capture_board \<and>
   get_all_moves capture_board 1 = Some [(2, 1, [(0, 3)])] \<and>
   side_captures capture_board 1 = [(2, 1, [(0, 3)])] \<and>
   side_normals capture_board 1 = [(2, 1, [(1, 0)]), (5, 4, [(4, 3)]), (5, 4, [(4, 5)])]"
proof -
  have wf: "wf_board capture_board"
    by (simp add: capture_board_def wf_empty_board)
  have c: "side_captures capture_board 1 = [(2, 1, [(0, 3)])]"
    by code_simp
  have n: "side_normals capture_board 1 = [(2, 1, [(1, 0)]), (5, 4, [(4, 3)]), (5, 4, [(4, 5)])]"
    by code_simp
  from forced_capture [OF wf, of 1] wf c n show ?thesis
    by simp
qed

section \<open>The effect of a move on the squares\<close>

text \<open>
  \<open>jumped_squares cr cc path\<close> lists the midpoints that the loop of \<open>apply_move\<close>
  clears: one for each hop that spans two rows or two columns.
\<close>

fun jumped_squares :: "int \<Rightarrow> int \<Rightarrow> path \<Rightarrow> coord list" where
  "jumped_squares cr cc [] = []"
| "jumped_squares cr cc ((nr, nc) # rest) =
     (if \<bar>nr - cr\<bar> = 2 \<or> \<bar>nc - cc\<bar> = 2
      then ((nr + cr) div 2, (nc + cc) div 2) # jumped_squares nr nc rest
      else jumped_squares nr nc rest)"

lemma midpoint_in_bounds:
  assumes "in_bounds cr cc" "in_bounds nr nc"
  shows "in_bounds ((nr + cr) div 2) ((nc + cc) div 2)"
  using assms unfolding in_bounds_def ROWS_def COLS_def by simp linarith

lemma walk_path_wf:
  assumes "wf_board nb" "in_bounds cr cc" "\<forall>(r, c)\<in>set path. in_bounds r c"
  shows "\<exists>nb'. walk_path nb cr cc path = Some (nb', last ((cr, cc) # path)) \<and> wf_board nb' \<and>
           (\<forall>r c. in_bounds r c \<longrightarrow>
              cell nb' r c = (if (r, c) \<in> set (jumped_squares cr cc path) then 0 else cell nb r c))"
  using assms
proof (induction path arbitrary: nb cr cc)
  case Nil
  then show ?case by simp
next
  case (Cons x path)
  obtain nr nc where x: "x = (nr, nc)" by (cases x)
  with Cons.prems have n: "in_bounds nr nc" and rest: "\<forall>(r, c)\<in>set path. in_bounds r c"
    by simp_all
  note mid = midpoint_in_bounds [OF Cons.prems(2) n]
  show ?case
  proof (cases "\<bar>nr - cr\<bar> = 2 \<or> \<bar>nc - cc\<bar> = 2")
    case True
    define nb1 where "nb1 = put nb ((nr + cr) div 2) ((nc + cc) div 2) 0"
    have wf1: "wf_board nb1"
      using Cons.prems(1) by (simp add: nb1_def)
    from Cons.IH [OF wf1 n rest] obtain nb' where
      w: "walk_path nb1 nr nc path = Some (nb', last ((nr, nc) # path))" "wf_board nb'"
      and c: "\<And>r c. in_bounds r c \<Longrightarrow>
              cell nb' r c = (if (r, c) \<in> set (jumped_squares nr nc path) then 0 else cell nb1 r c)"
      by blast
    have "walk_path nb cr cc (x # path) = Some (nb', last ((cr, cc) # x # path))"
      using True w(1) Cons.prems(1) mid by (simp add: x set2_wf nb1_def)
    moreover have "cell nb' r c =
        (if (r, c) \<in> set (jumped_squares cr cc (x # path)) then 0 else cell nb r c)"
      if "in_bounds r c" for r c
      using c [OF that] True Cons.prems(1) mid that by (auto simp: x nb1_def cell_put)
    ultimately show ?thesis
      using w(2) by blast
  next
    case False
    from Cons.IH [OF Cons.prems(1) n rest] obtain nb' where
      w: "walk_path nb nr nc path = Some (nb', last ((nr, nc) # path))" "wf_board nb'"
      and c: "\<And>r c. in_bounds r c \<Longrightarrow>
              cell nb' r c = (if (r, c) \<in> set (jumped_squares nr nc path) then 0 else cell nb r c)"
      by blast
    have "walk_path nb cr cc (x # path) = Some (nb', last ((cr, cc) # x # path))"
      using False w(1) by (simp add: x)
    moreover have "cell nb' r c =
        (if (r, c) \<in> set (jumped_squares cr cc (x # path)) then 0 else cell nb r c)"
      if "in_bounds r c" for r c
      using c [OF that] False by (simp add: x)
    ultimately show ?thesis
      using w(2) by blast
  qed
qed

lemma last_in_bounds:
  assumes "in_bounds sr sc" "\<forall>(r, c)\<in>set path. in_bounds r c"
  shows "in_bounds (fst (last ((sr, sc) # path))) (snd (last ((sr, sc) # path)))"
proof (cases "path = []")
  case True
  with assms show ?thesis by simp
next
  case False
  then have "last ((sr, sc) # path) \<in> set path"
    by simp
  with assms(2) show ?thesis
    by (auto simp: split_beta)
qed

lemma apply_move_wf:
  assumes wf: "wf_board b" and s: "in_bounds sr sc" and p: "\<forall>(r, c)\<in>set path. in_bounds r c"
    and e: "last ((sr, sc) # path) = (er, ec)"
  shows "\<exists>nb. apply_move b (sr, sc, path) = Some nb \<and> wf_board nb \<and>
           (\<forall>r c. in_bounds r c \<longrightarrow>
              cell nb r c =
                (if r = er \<and> c = ec then crowned (cell b sr sc) er
                 else if (r = sr \<and> c = sc) \<or> (r, c) \<in> set (jumped_squares sr sc path) then 0
                 else cell b r c))"
proof -
  define piece where "piece = cell b sr sc"
  define b0 where "b0 = put b sr sc 0"
  from last_in_bounds [OF s p] e have eb: "in_bounds er ec"
    by simp
  have wf0: "wf_board b0"
    using wf by (simp add: b0_def)
  from walk_path_wf [OF wf0 s p] e obtain w where
    w: "walk_path b0 sr sc path = Some (w, er, ec)" "wf_board w"
    and wc: "\<And>r c. in_bounds r c \<Longrightarrow>
              cell w r c = (if (r, c) \<in> set (jumped_squares sr sc path) then 0 else cell b0 r c)"
    by auto
  define b1 where "b1 = put w er ec piece"
  define b2 where "b2 = (if cell b1 er ec = 1 \<and> er = 0 then put b1 er ec 2 else b1)"
  define b3 where "b3 = (if cell b2 er ec = - 1 \<and> er = ROWS - 1 then put b2 er ec (- 2) else b2)"
  have wf1: "wf_board b1" and wf2: "wf_board b2" and wf3: "wf_board b3"
    using w(2) by (simp_all add: b1_def b2_def b3_def)
  have s2: "(if P then set2 b' er ec v else Some b') = Some (if P then put b' er ec v else b')"
    if "wf_board b'" for P b' v
    using that eb by (simp add: set2_wf)
  have am: "apply_move b (sr, sc, path) = Some b3"
    unfolding apply_move_def clone_board_def b3_def b2_def
    using wf s w eb wf1 wf2 [unfolded b2_def]
    by (simp add: get2_wf set2_wf piece_def [symmetric] b0_def [symmetric] b1_def [symmetric]
        s2 split del: if_split)
  have c1: "cell b1 r c = (if (r, c) = (er, ec) then piece else cell w r c)"
    if "in_bounds r c" for r c
    using that eb w(2) by (simp add: b1_def cell_put)
  have c3: "cell b3 r c = (if (r, c) = (er, ec) then crowned piece er else cell w r c)"
    if "in_bounds r c" for r c
    using that eb wf1 wf2 c1 [OF that] c1 [OF eb]
    by (auto simp: b3_def b2_def cell_put crowned_def)
  have "cell b3 r c =
      (if r = er \<and> c = ec then crowned piece er
       else if (r = sr \<and> c = sc) \<or> (r, c) \<in> set (jumped_squares sr sc path) then 0
       else cell b r c)" if "in_bounds r c" for r c
    using c3 [OF that] wc [OF that] wf s that by (auto simp: b0_def cell_put)
  with am wf3 show ?thesis
    unfolding piece_def [symmetric] by blast
qed

section \<open>Induction over capture chains\<close>

lemma chain_to_wf_induct [consumes 3, case_names stop hop]:
  assumes ch: "chain_to bd cr cc q bd' cr' cc'" and wf: "wf_board bd" and ib: "in_bounds cr cc"
    and stop: "\<And>bd cr cc. wf_board bd \<Longrightarrow> in_bounds cr cc \<Longrightarrow>
        (\<forall>(dr, dc)\<in>set (scan_dirs (cell bd cr cc)). \<not> can_jump bd cr cc (cell bd cr cc) dr dc) \<Longrightarrow>
        P bd cr cc [] bd cr cc"
    and hop: "\<And>bd cr cc dr dc q bd' cr' cc'. wf_board bd \<Longrightarrow> in_bounds cr cc \<Longrightarrow>
        (dr, dc) \<in> set (scan_dirs (cell bd cr cc)) \<Longrightarrow>
        can_jump bd cr cc (cell bd cr cc) dr dc \<Longrightarrow>
        wf_board (jumped bd cr cc dr dc) \<Longrightarrow> in_bounds (cr + 2 * dr) (cc + 2 * dc) \<Longrightarrow>
        chain_to (jumped bd cr cc dr dc) (cr + 2 * dr) (cc + 2 * dc) q bd' cr' cc' \<Longrightarrow>
        P (jumped bd cr cc dr dc) (cr + 2 * dr) (cc + 2 * dc) q bd' cr' cc' \<Longrightarrow>
        P bd cr cc ((cr + 2 * dr, cc + 2 * dc) # q) bd' cr' cc'"
  shows "P bd cr cc q bd' cr' cc'"
  using ch wf ib
proof (induction rule: chain_to.induct)
  case (stop bd cr cc pc)
  from stop.prems stop.hyps(1) have pc: "pc = cell bd cr cc"
    by (simp add: get2_wf)
  have "\<not> can_jump bd cr cc (cell bd cr cc) dr dc"
    if "(dr, dc) \<in> set (scan_dirs (cell bd cr cc))" for dr dc
    using try_jump_scan [OF stop.prems, of "(dr, dc)" pc] that stop.hyps(2)
    by (auto simp: pc split: if_splits)
  with stop.prems show ?case
    by (intro assms(4)) auto
next
  case (hop bd cr cc pc d nb lr lc q bd' cr' cc')
  from hop.prems hop.hyps(1) have pc: "pc = cell bd cr cc"
    by (simp add: get2_wf)
  obtain dr dc where d: "d = (dr, dc)" by (cases d)
  from try_jump_scan [OF hop.prems hop.hyps(2)] hop.hyps(3)
  have cj: "can_jump bd cr cc (cell bd cr cc) dr dc"
    and nb: "nb = jumped bd cr cc dr dc" "lr = cr + 2 * dr" "lc = cc + 2 * dc"
    by (auto simp: d pc split: if_splits)
  have wfn: "wf_board (jumped bd cr cc dr dc)"
    using hop.prems(1) by (rule wf_jumped)
  have ibn: "in_bounds (cr + 2 * dr) (cc + 2 * dc)"
    using cj by (simp add: can_jump_def)
  show ?case
    unfolding nb(2,3)
    using hop.prems hop.hyps(2) [unfolded d pc] cj wfn ibn hop.hyps(4) [unfolded nb]
      hop.IH [unfolded nb, OF wfn ibn]
    by (rule assms(5))
qed

section \<open>Only dark squares are occupied\<close>

definition dark_only :: "board \<Rightarrow> bool" where
  "dark_only b \<longleftrightarrow> list_all (\<lambda>(r, c). (r + c) mod 2 = 0 \<longrightarrow> get2 b r c = Some 0) all_squares"

definition start_board :: board where
  "start_board =
     [[0, - 1, 0, - 1, 0, - 1, 0, - 1],
      [- 1, 0, - 1, 0, - 1, 0, - 1, 0],
      [0, - 1, 0, - 1, 0, - 1, 0, - 1],
      [0, 0, 0, 0, 0, 0, 0, 0],
      [0, 0, 0, 0, 0, 0, 0, 0],
      [1, 0, 1, 0, 1, 0, 1, 0],
      [0, 1, 0, 1, 0, 1, 0, 1],
      [1, 0, 1, 0, 1, 0, 1, 0]]"

lemma initial_board_eq: "initial_board = Some start_board"
  by code_simp

lemma wf_start_board: "wf_board start_board"
  by (simp add: wf_board_def start_board_def ROWS_def COLS_def)

lemma dark_only_start: "dark_only start_board"
  by code_simp

lemma dark_only_wf:
  assumes "wf_board b"
  shows "dark_only b \<longleftrightarrow> (\<forall>r c. in_bounds r c \<longrightarrow> (r + c) mod 2 = 0 \<longrightarrow> cell b r c = 0)"
  using assms by (auto simp: dark_only_def list_all_iff set_all_squares get2_wf)

lemma chain_squares:
  assumes "chain_to bd cr cc q bd' cr' cc'" "wf_board bd" "in_bounds cr cc"
  shows "\<forall>(r, c)\<in>set q. in_bounds r c \<and> (r + c) mod 2 = (cr + cc) mod 2"
  using assms
proof (induction rule: chain_to_wf_induct)
  case (stop bd cr cc)
  show ?case by simp
next
  case (hop bd cr cc dr dc q bd' cr' cc')
  have "(cr + 2 * dr + (cc + 2 * dc)) mod 2 = (cr + cc) mod 2"
    by presburger
  with hop show ?case
    by auto
qed

lemma generated_paths:
  assumes wf: "wf_board b" and ib: "in_bounds r c"
    and g: "get_piece_moves b r c = Some (nm, cm)" and p: "p \<in> set nm \<union> set cm"
  shows "cell b r c \<noteq> 0 \<and> p \<noteq> [] \<and>
         (\<forall>(r', c')\<in>set p. in_bounds r' c' \<and> (r' + c') mod 2 = (r + c) mod 2)"
proof -
  from get_piece_moves_wf [OF wf ib] g have
    nm: "nm = (if cell b r c = 0 then []
                 else map (\<lambda>(dr, dc). [(r + dr, c + dc)])
                        (filter (\<lambda>(dr, dc). in_bounds (r + dr) (c + dc) \<and> cell b (r + dr) (c + dc) = 0)
                           (piece_dirs (cell b r c))))"
    and cm: "set cm = {q \<in> jump_chains b r c. q \<noteq> []}"
    by auto
  have nz: "cell b r c \<noteq> 0"
  proof
    assume z: "cell b r c = 0"
    then have "get_piece_moves b r c = Some ([], [])"
      using wf ib by (simp add: get_piece_moves_def get2_wf)
    with g p show False by simp
  qed
  from p show ?thesis
  proof
    assume "p \<in> set nm"
    with nm nz obtain dr dc where d: "(dr, dc) \<in> set (piece_dirs (cell b r c))"
      "in_bounds (r + dr) (c + dc)" "p = [(r + dr, c + dc)]"
      by auto
    from piece_dirs_unit [OF d(1)] have "(r + dr + (c + dc)) mod 2 = (r + c) mod 2"
      by presburger
    with d nz show ?thesis
      by simp
  next
    assume "p \<in> set cm"
    with cm obtain bd' cr' cc' where "chain_to b r c p bd' cr' cc'" "p \<noteq> []"
      by (auto simp: jump_chains_def)
    with chain_squares [OF this(1) wf ib] nz show ?thesis
      by simp
  qed
qed

text \<open>
  Claim C9. \<open>initial_board\<close> builds a well-formed board whose squares with even
  \<open>row + col\<close> are all empty; and whenever a well-formed board has that property, applying
  any normal or capture path that \<open>get_piece_moves\<close> returns for one of its squares gives
  again a well-formed board with that property.
\<close>

theorem dark_squares_invariant:
  "(\<exists>b0. initial_board = Some b0 \<and> wf_board b0 \<and> dark_only b0) \<and>
   (\<forall>b r c nm cm p.
      wf_board b \<and> dark_only b \<and> in_bounds r c \<and>
      get_piece_moves b r c = Some (nm, cm) \<and> p \<in> set nm \<union> set cm \<longrightarrow>
      (\<exists>nb. apply_move b (r, c, p) = Some nb \<and> wf_board nb \<and> dark_only nb))"
proof (intro conjI allI impI)
  show "\<exists>b0. initial_board = Some b0 \<and> wf_board b0 \<and> dark_only b0"
    using initial_board_eq wf_start_board dark_only_start by blast
next
  fix b r c nm cm p
  assume a: "wf_board b \<and> dark_only b \<and> in_bounds r c \<and>
      get_piece_moves b r c = Some (nm, cm) \<and> p \<in> set nm \<union> set cm"
  then have wf: "wf_board b" and ib: "in_bounds r c" and dark: "dark_only b"
    by simp_all
  from a generated_paths [OF wf ib] have nz: "cell b r c \<noteq> 0" and ne: "p \<noteq> []"
    and sq: "\<forall>(r', c')\<in>set p. in_bounds r' c' \<and> (r' + c') mod 2 = (r + c) mod 2"
    by blast+
  have odd: "(r + c) mod 2 \<noteq> 0"
  proof
    assume "(r + c) mod 2 = 0"
    with dark [unfolded dark_only_wf [OF wf]] ib have "cell b r c = 0"
      by simp
    with nz show False
      by simp
  qed
  obtain er ec where e: "last ((r, c) # p) = (er, ec)"
    by (cases "last ((r, c) # p)")
  with ne have "(er, ec) \<in> set p"
    by (metis last.simps last_in_set)
  with sq odd have eodd: "(er + ec) mod 2 \<noteq> 0"
    by auto
  from sq have inb: "\<forall>(r', c')\<in>set p. in_bounds r' c'"
    by auto
  from apply_move_wf [OF wf ib inb e] obtain nb where
    am: "apply_move b (r, c, p) = Some nb" "wf_board nb"
    and cells: "\<And>r' c'. in_bounds r' c' \<Longrightarrow> cell nb r' c' =
                (if r' = er \<and> c' = ec then crowned (cell b r c) er
                 else if (r' = r \<and> c' = c) \<or> (r', c') \<in> set (jumped_squares r c p) then 0
                 else cell b r' c')"
    by blast
  have "cell nb r' c' = 0" if "in_bounds r' c'" "(r' + c') mod 2 = 0" for r' c'
    using cells [OF that(1)] that eodd dark unfolding dark_only_wf [OF wf]
    by (auto split: if_splits)
  then have "dark_only nb"
    unfolding dark_only_wf [OF am(2)] by blast
  with am show "\<exists>nb. apply_move b (r, c, p) = Some nb \<and> wf_board nb \<and> dark_only nb"
    by blast
qed

definition start_after_step :: board where
  "start_after_step =
     [[0, - 1, 0, - 1, 0, - 1, 0, - 1],
      [- 1, 0, - 1, 0, - 1, 0, - 1, 0],
      [0, - 1, 0, - 1, 0, - 1, 0, - 1],
      [0, 0, 0, 0, 0, 0, 0, 0],
      [0, 1, 0, 0, 0, 0, 0, 0],
      [0, 0, 1, 0, 1, 0, 1, 0],
      [0, 1, 0, 1, 0, 1, 0, 1],
      [1, 0, 1, 0, 1, 0, 1, 0]]"

text \<open>The first step of a game: the Red man on \<open>(5, 0)\<close> moves to \<open>(4, 1)\<close>.\<close>

theorem dark_squares_invariant_witness:
  "initial_board = Some start_board \<and> wf_board start_board \<and> dark_only start_board \<and>
   in_bounds 5 0 \<and> get_piece_moves start_board 5 0 = Some ([[(4, 1)]], []) \<and>
   apply_move start_board (5, 0, [(4, 1)]) = Some start_after_step \<and>
   wf_board start_after_step \<and> dark_only start_after_step"
proof -
  have g: "get_piece_moves start_board 5 0 = Some ([[(4, 1)]], [])"
    by code_simp
  have a: "apply_move start_board (5, 0, [(4, 1)]) = Some start_after_step"
    by code_simp
  have ib: "in_bounds 5 0"
    by (simp add: in_bounds_def ROWS_def COLS_def)
  from dark_squares_invariant have
    "\<exists>nb. apply_move start_board (5, 0, [(4, 1)]) = Some nb \<and> wf_board nb \<and> dark_only nb"
    using wf_start_board dark_only_start ib g by (elim conjE allE impE) auto
  with a initial_board_eq wf_start_board dark_only_start ib g show ?thesis
    by simp
qed

section \<open>What a move does to the board\<close>

definition ring_board :: board where
  "ring_board =
     [[0, 0, 0, 0, 0, 0, 0, 0],
      [0, 0, - 1, 0, - 1, 0, 0, 0],
      [0, 2, 0, 0, 0, 0, 0, 0],
      [0, 0, - 1, 0, - 1, 0, 0, 0],
      [0, 0, 0, 0, 0, 0, 0, 0],
      [0, 0, 0, 0, 0, 0, 0, 0],
      [0, 0, 0, 0, 0, 0, 0, 0],
      [0, 0, 0, 0, 0, 0, 0, 0]]"

definition ring_after :: board where
  "ring_after =
     [[0, 0, 0, 0, 0, 0, 0, 0],
      [0, 0, 0, 0, 0, 0, 0, 0],
      [0, 2, 0, 0, 0, 0, 0, 0],
      [0, 0, 0, 0, 0, 0, 0, 0],
      [0, 0, 0, 0, 0, 0, 0, 0],
      [0, 0, 0, 0, 0, 0, 0, 0],
      [0, 0, 0, 0, 0, 0, 0, 0],
      [0, 0, 0, 0, 0, 0, 0, 0]]"

text \<open>
  Claim C5 says that \<open>apply_move\<close> always leaves the origin square empty. A king whose
  capture chain runs in a ring ends on its origin: the generator returns such a path and
  \<open>apply_move\<close> puts the king back on the origin square.
\<close>

theorem origin_emptied_counterexample:
  "get_piece_moves ring_board 2 1 =
     Some ([[(1, 0)], [(3, 0)]],
           [[(0, 3), (2, 5), (4, 3), (2, 1)], [(4, 3), (2, 5), (0, 3), (2, 1)]]) \<and>
   apply_move ring_board (2, 1, [(0, 3), (2, 5), (4, 3), (2, 1)]) = Some ring_after \<and>
   get2 ring_after 2 1 = Some 2"
  by code_simp

text \<open>
  Claim C5, amended. For a well-formed board, an origin inside the bounds and a non-empty
  path of squares inside the bounds, \<open>apply_move\<close> returns a board on which the last
  square of the path holds the moving piece (crowned when a man arrives on its last row);
  of the other squares, the origin and the midpoint of every hop that spans two rows or
  two columns are empty, and all the rest are unchanged. So the origin is emptied unless
  the path ends on it, and hops of distance 1 remove nothing.
\<close>

theorem apply_move_squares:
  assumes "wf_board b" "in_bounds sr sc" "path \<noteq> []" "\<forall>(r, c)\<in>set path. in_bounds r c"
    and "get2 b sr sc = Some piece" "last path = (er, ec)"
  shows "\<exists>nb. apply_move b (sr, sc, path) = Some nb \<and>
           get2 nb er ec = Some (crowned piece er) \<and>
           (\<forall>r c. in_bounds r c \<and> (r, c) \<noteq> (er, ec) \<longrightarrow>
              get2 nb r c =
                (if (r, c) = (sr, sc) \<or> (r, c) \<in> set (jumped_squares sr sc path) then Some 0
                 else get2 b r c))"
proof -
  from assms(3,6) have e: "last ((sr, sc) # path) = (er, ec)"
    by simp
  from assms(3,6) have "(er, ec) \<in> set path"
    by (metis last_in_set)
  with assms(4) have eb: "in_bounds er ec"
    by auto
  from assms(1,2,5) have piece: "piece = cell b sr sc"
    by (simp add: get2_wf)
  from apply_move_wf [OF assms(1,2,4) e] obtain nb where nb:
    "apply_move b (sr, sc, path) = Some nb" "wf_board nb"
    "\<And>r c. in_bounds r c \<Longrightarrow> cell nb r c =
                (if r = er \<and> c = ec then crowned (cell b sr sc) er
                 else if (r = sr \<and> c = sc) \<or> (r, c) \<in> set (jumped_squares sr sc path) then 0
                 else cell b r c)"
    by blast
  have "get2 nb er ec = Some (crowned piece er)"
    using nb(2,3) eb by (simp add: get2_wf piece)
  moreover have "get2 nb r c =
      (if (r, c) = (sr, sc) \<or> (r, c) \<in> set (jumped_squares sr sc path) then Some 0
       else get2 b r c)" if "in_bounds r c" "(r, c) \<noteq> (er, ec)" for r c
    using nb(2) nb(3) [OF that(1)] that assms(1) by (auto simp: get2_wf)
  ultimately show ?thesis
    using nb(1) by blast
qed

lemma wf_ring_board: "wf_board ring_board"
  by (simp add: wf_board_def ring_board_def ROWS_def COLS_def)

text \<open>The ring of the king: four midpoints cleared, the king back on \<open>(2, 1)\<close>.\<close>

theorem apply_move_squares_witness:
  "wf_board ring_board \<and> in_bounds 2 1 \<and> get2 ring_board 2 1 = Some 2 \<and>
   apply_move ring_board (2, 1, [(0, 3), (2, 5), (4, 3), (2, 1)]) = Some ring_after \<and>
   get2 ring_after 2 1 = Some 2 \<and> get2 ring_after 1 2 = Some 0 \<and>
   get2 ring_after 0 3 = get2 ring_board 0 3"
proof -
  have ib: "in_bounds 2 1" "in_bounds 1 2" "in_bounds 0 3"
    by (simp_all add: in_bounds_def ROWS_def COLS_def)
  have p: "\<forall>(r, c)\<in>set [(0, 3), (2, 5), (4, 3), (2, 1)]. in_bounds r c"
    by (simp add: in_bounds_def ROWS_def COLS_def)
  have g: "get2 ring_board 2 1 = Some 2"
    by code_simp
  have a: "apply_move ring_board (2, 1, [(0, 3), (2, 5), (4, 3), (2, 1)]) = Some ring_after"
    by code_simp
  have j: "jumped_squares 2 1 [(0, 3), (2, 5), (4, 3), (2, 1)] = [(1, 2), (1, 4), (3, 4), (3, 2)]"
    by simp
  from apply_move_squares [OF wf_ring_board ib(1) _ p g, of 2 1]
  have "get2 ring_after 2 1 = Some (crowned 2 2) \<and>
        (\<forall>r c. in_bounds r c \<and> (r, c) \<noteq> (2, 1) \<longrightarrow>
           get2 ring_after r c =
             (if (r, c) = (2, 1) \<or> (r, c) \<in> set [(1, 2), (1, 4), (3, 4), (3, 2)] then Some 0
              else get2 ring_board r c))"
    by (simp add: a j)
  then have "get2 ring_after 2 1 = Some 2" "get2 ring_after 1 2 = Some 0"
    "get2 ring_after 0 3 = get2 ring_board 0 3"
    using ib by (auto simp: crowned_def)
  with wf_ring_board ib g a show ?thesis
    by simp
qed

section \<open>Promotion\<close>








section \<open>Directions of capture chains\<close>









definition fork_board :: board where
  "fork_board =
     [[0, 0, 0, 0, 0, 0, 0, 0],
      [0, 0, 0, 0, 0, 0, 0, 0],
      [0, 0, 0, 0, 0, 0, 0, 0],
      [0, 0, - 1, 0, 0, 0, 0, 0],
      [0, 0, 0, 0, 0, 0, 0, 0],
      [0, 0, - 1, 0, - 1, 0, 0, 0],
      [0, 0, 0, 1, 0, 0, 0, 0],
      [0, 0, 0, 0, 0, 0, 0, 0]]"

lemma wf_fork_board: "wf_board fork_board"
  by (simp add: wf_board_def fork_board_def ROWS_def COLS_def)

text \<open>The search returns no path twice: the directions of a square lead to different landings.\<close>

lemma for_dirs_distinct:
  assumes "for_dirs tj rec ds = Some (f, caps)" "distinct (map tag ds)"
    and "\<And>d j ps. d \<in> set ds \<Longrightarrow> tj d = Some (Some j) \<Longrightarrow> rec j = Some ps \<Longrightarrow>
           distinct ps \<and> (\<forall>p\<in>set ps. key p = tag d)"
  shows "distinct caps \<and> (\<forall>p\<in>set caps. key p \<in> tag ` set ds)"
  using assms
proof (induction ds arbitrary: f caps)
  case Nil
  then show ?case by simp
next
  case (Cons d ds)
  have IH: "distinct cs \<and> (\<forall>p\<in>set cs. key p \<in> tag ` set ds)"
    if "for_dirs tj rec ds = Some (f', cs)" for f' cs
    using that Cons.prems(2,3) by (intro Cons.IH [of f' cs]) auto
  show ?case
  proof (cases "tj d")
    case None
    with Cons.prems(1) show ?thesis by simp
  next
    case (Some oj)
    show ?thesis
    proof (cases oj)
      case None
      with Some Cons.prems(1) IH [of f caps] show ?thesis
        by auto
    next
      case (Some j)
      with \<open>tj d = Some oj\<close> Cons.prems(1) obtain sub f' cs where
        sub: "rec j = Some sub" and rest: "for_dirs tj rec ds = Some (f', cs)"
        and caps: "caps = sub @ cs"
        by (auto split: option.splits)
      from Cons.prems(3) [of d j sub] Some \<open>tj d = Some oj\<close> sub have
        ds: "distinct sub" and ks: "\<forall>p\<in>set sub. key p = tag d"
        by auto
      from IH [OF rest] have dc: "distinct cs" and kc: "\<forall>p\<in>set cs. key p \<in> tag ` set ds"
        by auto
      from Cons.prems(2) have "tag d \<notin> tag ` set ds"
        by auto
      with ks kc have "set sub \<inter> set cs = {}"
        by auto
      with ds dc ks kc show ?thesis
        by (auto simp: caps)
    qed
  qed
qed

lemma scan_dirs_landings:
  "distinct (map (\<lambda>d. (cr + 2 * fst d, cc + 2 * snd d)) (scan_dirs pc))"
  by (simp add: scan_dirs_def)

lemma dfs_distinct:
  assumes "wf_board bd" "in_bounds cr cc" "dfs bd cr cc path = Some ps"
  shows "distinct ps"
  using assms
proof (induction bd cr cc path arbitrary: ps rule: dfs.induct)
  case (1 bd cr cc path)
  define pc where "pc = cell bd cr cc"
  have g: "get2 bd cr cc = Some pc"
    using "1.prems" by (simp add: get2_wf pc_def)
  from "1.prems"(3) g obtain found caps where
    fd: "for_dirs (try_jump bd cr cc pc) (\<lambda>(nb, lr, lc). dfs nb lr lc (path @ [(lr, lc)]))
               (scan_dirs pc) = Some (found, caps)"
    and ps: "ps = (if \<not> found \<and> path \<noteq> [] then caps @ [path] else caps)"
    by (subst (asm) dfs.simps) (auto split: option.splits)
  have sub: "distinct ps' \<and> (\<forall>p\<in>set ps'. p ! length path = (cr + 2 * fst d, cc + 2 * snd d))"
    if d: "d \<in> set (scan_dirs pc)" and tj: "try_jump bd cr cc pc d = Some (Some j)"
      and r: "(\<lambda>(nb, lr, lc). dfs nb lr lc (path @ [(lr, lc)])) j = Some ps'" for d j ps'
  proof -
    obtain nb lr lc where j: "j = (nb, lr, lc)" by (cases j)
    from try_jump_scan [OF "1.prems"(1,2) d] tj j have
      l: "lr = cr + 2 * fst d" "lc = cc + 2 * snd d" and nb: "nb = jumped bd cr cc (fst d) (snd d)"
      and cj: "can_jump bd cr cc pc (fst d) (snd d)"
      by (auto split: if_splits)
    have wfn: "wf_board nb"
      using "1.prems"(1) by (simp add: nb wf_jumped)
    have ibn: "in_bounds lr lc"
      using cj by (simp add: can_jump_def l)
    from r j have r': "dfs nb lr lc (path @ [(lr, lc)]) = Some ps'"
      by simp
    from "1.IH" [OF g d tj [unfolded j] refl refl wfn ibn r'] have "distinct ps'" .
    moreover from dfs_chains [OF wfn ibn, of "path @ [(lr, lc)]"] r'
    have "\<forall>p\<in>set ps'. p ! length path = (lr, lc)"
      by (auto simp: nth_append)
    ultimately show ?thesis
      by (simp add: l)
  qed
  from for_dirs_distinct [OF fd scan_dirs_landings [of cr cc pc],
      of "\<lambda>p. p ! length path"] sub
  have "distinct caps"
    by blast
  moreover from for_dirs_result [OF fd] have "\<not> found \<longrightarrow> caps = []"
    by simp
  ultimately show ?case
    by (auto simp: ps)
qed

text \<open>
  Claim C4. For a well-formed board and an occupied square inside the bounds, the capture
  list of \<open>get_piece_moves\<close> holds no empty path and no path twice, and its paths are
  exactly the non-empty maximal chains of jumps from that square: every sequence of
  available jumps that ends where no further jump is available is returned once, whatever
  its length.
\<close>

theorem captures_are_maximal_chains:
  assumes "wf_board b" "in_bounds r c" "get2 b r c = Some piece" "piece \<noteq> 0"
  shows "\<exists>nm cm. get_piece_moves b r c = Some (nm, cm) \<and> [] \<notin> set cm \<and> distinct cm \<and>
           set cm = {q. q \<noteq> [] \<and> (\<exists>bd' cr' cc'. chain_to b r c q bd' cr' cc')}"
proof -
  from get_piece_moves_wf [OF assms(1,2)] obtain nm cm where
    g: "get_piece_moves b r c = Some (nm, cm)" and s: "set cm = {q \<in> jump_chains b r c. q \<noteq> []}"
    by blast
  from g assms(3,4) have "dfs b r c [] = Some cm"
    by (auto simp: get_piece_moves_def Let_def split: option.splits)
  from dfs_distinct [OF assms(1,2) this] have "distinct cm" .
  with g s show ?thesis
    unfolding jump_chains_def by auto
qed

text \<open>
  A man with two ways to capture: a chain of two jumps to the left and a single jump to
  the right. Both are returned.
\<close>

theorem captures_are_maximal_chains_witness:
  "wf_board fork_board \<and> in_bounds 6 3 \<and> get2 fork_board 6 3 = Some 1 \<and>
   get_piece_moves fork_board 6 3 = Some ([], [[(4, 1), (2, 3)], [(4, 5)]]) \<and>
   {q. q \<noteq> [] \<and> (\<exists>bd' cr' cc'. chain_to fork_board 6 3 q bd' cr' cc')} =
     {[(4, 1), (2, 3)], [(4, 5)]}"
proof -
  have ib: "in_bounds 6 3"
    by (simp add: in_bounds_def ROWS_def COLS_def)
  have g: "get2 fork_board 6 3 = Some 1"
    by code_simp
  have m: "get_piece_moves fork_board 6 3 = Some ([], [[(4, 1), (2, 3)], [(4, 5)]])"
    by code_simp
  have nz: "(1::int) \<noteq> 0"
    by simp
  from captures_are_maximal_chains [OF wf_fork_board ib g nz] wf_fork_board ib g m
  show ?thesis
    by auto
qed

section \<open>The applied move and the scratch board of its chain\<close>

text \<open>
  At the end of a maximal chain the scratch board of the search and the board that
  \<open>apply_move\<close> returns for the path agree on every square but the last one of the path,
  where the scratch board may hold a king (\<open>promoted_from\<close>) and the applied board a man.
\<close>

lemma crowned_cases:
  "crowned v lr = v \<or> (v = 1 \<and> crowned v lr = 2) \<or> (v = - 1 \<and> crowned v lr = - 2)"
  by (auto simp: crowned_def)

lemma crowned_idem: "crowned (crowned v lr) lr = crowned v lr"
  by (auto simp: crowned_def)

definition promoted_from :: "int \<Rightarrow> int \<Rightarrow> bool" where
  "promoted_from p0 p \<longleftrightarrow> p = p0 \<or> (p0 = 1 \<and> p = 2) \<or> (p0 = - 1 \<and> p = - 2)"

lemma promoted_from_trans:
  "promoted_from a b \<Longrightarrow> promoted_from b c \<Longrightarrow> promoted_from a c"
  by (auto simp: promoted_from_def)

lemma chain_end_state:
  assumes "chain_to bd cr cc q bd' cr' cc'" "wf_board bd" "in_bounds cr cc"
  shows "\<forall>W. wf_board W \<and> cell W cr cc = 0 \<and>
           (\<forall>r c. in_bounds r c \<and> (r, c) \<noteq> (cr, cc) \<longrightarrow> cell bd r c = cell W r c) \<longrightarrow>
           last ((cr, cc) # q) = (cr', cc') \<and> in_bounds cr' cc' \<and> wf_board bd' \<and>
           (\<forall>r c. in_bounds r c \<and> (r, c) \<noteq> (cr', cc') \<longrightarrow>
              cell bd' r c = (if (r, c) \<in> set (jumped_squares cr cc q) then 0 else cell W r c)) \<and>
           (\<forall>(dr, dc)\<in>set (scan_dirs (cell bd' cr' cc')).
              \<not> can_jump bd' cr' cc' (cell bd' cr' cc') dr dc) \<and>
           promoted_from (cell bd cr cc) (cell bd' cr' cc') \<and>
           (q \<noteq> [] \<longrightarrow> crowned (cell bd' cr' cc') cr' = cell bd' cr' cc')"
  using assms
proof (induction rule: chain_to_wf_induct)
  case (stop bd cr cc)
  then show ?case
    by (auto simp: promoted_from_def)
next
  case (hop bd cr cc dr dc q bd' cr' cc')
  define mr mc lr lc where "mr = cr + dr" and "mc = cc + dc"
    and "lr = cr + 2 * dr" and "lc = cc + 2 * dc"
  define nb where "nb = jumped bd cr cc dr dc"
  note IH = hop.IH [folded nb_def lr_def lc_def]
  from hop.hyps(3) have u: "\<bar>dr\<bar> = 1" "\<bar>dc\<bar> = 1"
    by (auto dest: scan_dirs_unit)
  from hop.hyps(4) have m: "in_bounds mr mc" and l: "in_bounds lr lc"
    and l0: "cell bd lr lc = 0"
    by (simp_all add: can_jump_def mr_def mc_def lr_def lc_def)
  have ne: "(lr, lc) \<noteq> (cr, cc)" "(lr, lc) \<noteq> (mr, mc)" "(mr, mc) \<noteq> (cr, cc)"
    using u by (auto simp: mr_def mc_def lr_def lc_def)
  have cn: "cell nb r c =
      (if r = lr \<and> c = lc then crowned (cell bd cr cc) lr
       else if (r = cr \<and> c = cc) \<or> (r = mr \<and> c = mc) then 0 else cell bd r c)"
    if "in_bounds r c" for r c
    using cell_jumped [OF hop.hyps(1,2) m [unfolded mr_def mc_def] l [unfolded lr_def lc_def] u that]
    by (simp add: nb_def mr_def mc_def lr_def lc_def)
  have "\<bar>lr - cr\<bar> = 2" "(lr + cr) div 2 = mr" "(lc + cc) div 2 = mc"
    using u by (auto simp: mr_def mc_def lr_def lc_def)
  then have js: "jumped_squares cr cc ((lr, lc) # q) = (mr, mc) # jumped_squares lr lc q"
    by simp
  show ?case
    unfolding lr_def [symmetric] lc_def [symmetric]
  proof (intro allI impI)
    fix W
    assume W: "wf_board W \<and> cell W cr cc = 0 \<and>
           (\<forall>r c. in_bounds r c \<and> (r, c) \<noteq> (cr, cc) \<longrightarrow> cell bd r c = cell W r c)"
    define W' where "W' = put W mr mc 0"
    have wfW: "wf_board W'"
      using W by (simp add: W'_def)
    have cW: "cell W' r c = (if r = mr \<and> c = mc then 0 else cell W r c)" if "in_bounds r c" for r c
      using W m that by (simp add: W'_def cell_put)
    have "cell W' lr lc = 0"
      using cW [OF l] ne W l l0 by auto
    moreover have "cell nb r c = cell W' r c" if "in_bounds r c" "(r, c) \<noteq> (lr, lc)" for r c
      using cn [OF that(1)] cW [OF that(1)] that W by auto
    ultimately have pre: "wf_board W' \<and> cell W' lr lc = 0 \<and>
           (\<forall>r c. in_bounds r c \<and> (r, c) \<noteq> (lr, lc) \<longrightarrow> cell nb r c = cell W' r c)"
      using wfW by blast
    from IH [rule_format, OF pre] have
      e: "last ((lr, lc) # q) = (cr', cc')" and eb: "in_bounds cr' cc'" and wf': "wf_board bd'"
      and cells: "\<And>r c. in_bounds r c \<Longrightarrow> (r, c) \<noteq> (cr', cc') \<Longrightarrow>
              cell bd' r c = (if (r, c) \<in> set (jumped_squares lr lc q) then 0 else cell W' r c)"
      and leaf: "\<forall>(dr, dc)\<in>set (scan_dirs (cell bd' cr' cc')).
              \<not> can_jump bd' cr' cc' (cell bd' cr' cc') dr dc"
      and pr: "promoted_from (cell nb lr lc) (cell bd' cr' cc')"
      and cr: "q \<noteq> [] \<longrightarrow> crowned (cell bd' cr' cc') cr' = cell bd' cr' cc'"
      by blast+
    have nl: "cell nb lr lc = crowned (cell bd cr cc) lr"
      using cn [OF l] by simp
    have p1: "promoted_from (cell bd cr cc) (cell nb lr lc)"
      using crowned_cases [of "cell bd cr cc" lr] by (auto simp: nl promoted_from_def)
    have "cell bd' r c = (if (r, c) \<in> set (jumped_squares cr cc ((lr, lc) # q)) then 0 else cell W r c)"
      if "in_bounds r c" "(r, c) \<noteq> (cr', cc')" for r c
    proof (cases "r = mr \<and> c = mc")
      case True
      with cW [OF that(1)] have "cell W' r c = 0"
        by simp
      with cells [OF that] have "cell bd' r c = 0"
        by (simp split: if_splits)
      with True show ?thesis
        unfolding js by simp
    next
      case False
      with cW [OF that(1)] have "cell W' r c = cell W r c"
        by simp
      with cells [OF that] False show ?thesis
        unfolding js by auto
    qed
    moreover have "crowned (cell bd' cr' cc') cr' = cell bd' cr' cc'"
    proof (cases "q = []")
      case False
      with cr show ?thesis by simp
    next
      case True
      with e have "cr' = lr" by simp
      from pr consider "cell bd' cr' cc' = cell nb lr lc"
        | "cell bd' cr' cc' = 2" | "cell bd' cr' cc' = - 2"
        by (auto simp: promoted_from_def)
      then show ?thesis
      proof cases
        case 1
        with nl \<open>cr' = lr\<close> show ?thesis
          by (simp add: crowned_idem)
      qed (simp_all add: crowned_def)
    qed
    moreover have "last ((cr, cc) # (lr, lc) # q) = (cr', cc')"
      using e by simp
    ultimately show "last ((cr, cc) # (lr, lc) # q) = (cr', cc') \<and> in_bounds cr' cc' \<and> wf_board bd' \<and>
           (\<forall>r c. in_bounds r c \<and> (r, c) \<noteq> (cr', cc') \<longrightarrow>
              cell bd' r c = (if (r, c) \<in> set (jumped_squares cr cc ((lr, lc) # q)) then 0 else cell W r c)) \<and>
           (\<forall>(dr, dc)\<in>set (scan_dirs (cell bd' cr' cc')).
              \<not> can_jump bd' cr' cc' (cell bd' cr' cc') dr dc) \<and>
           promoted_from (cell bd cr cc) (cell bd' cr' cc') \<and>
           ((lr, lc) # q \<noteq> [] \<longrightarrow> crowned (cell bd' cr' cc') cr' = cell bd' cr' cc')"
      using eb wf' leaf promoted_from_trans [OF p1 pr] by blast
  qed
qed

lemma scan_dirs_promoted:
  assumes "promoted_from p p'" "crowned p' er = p'"
  shows "set (scan_dirs (crowned p er)) \<subseteq> set (scan_dirs p')"
  using assms by (auto simp: promoted_from_def scan_dirs_def crowned_def split: if_splits)

lemma sign_promoted:
  assumes "promoted_from p p'" "crowned p' er = p'" "x * crowned p er < 0"
  shows "x * p' < 0"
  using assms by (auto simp: promoted_from_def crowned_def mult_less_0_iff split: if_splits)

lemma no_capture_after_capture:
  assumes wf: "wf_board b" and ib: "in_bounds r c"
    and g: "get_piece_moves b r c = Some (nm, cm)" and p: "p \<in> set cm"
    and e: "last p = (er, ec)"
  shows "\<exists>nb nm'. apply_move b (r, c, p) = Some nb \<and> wf_board nb \<and> in_bounds er ec \<and>
           get_piece_moves nb er ec = Some (nm', [])"
proof -
  from get_piece_moves_wf [OF wf ib] g p have "p \<in> jump_chains b r c" and ne: "p \<noteq> []"
    by auto
  then obtain bd' cr' cc' where ch: "chain_to b r c p bd' cr' cc'"
    unfolding jump_chains_def by blast
  from ne e have e': "last ((r, c) # p) = (er, ec)"
    by simp
  from chain_squares [OF ch wf ib] have inb: "\<forall>(r', c')\<in>set p. in_bounds r' c'"
    by auto
  define W where "W = put b r c 0"
  have W: "wf_board W \<and> cell W r c = 0 \<and>
           (\<forall>r' c'. in_bounds r' c' \<and> (r', c') \<noteq> (r, c) \<longrightarrow> cell b r' c' = cell W r' c')"
    using wf ib by (auto simp: W_def cell_put)
  define p' where "p' = cell bd' er ec"
  from chain_end_state [OF ch wf ib, rule_format, OF W] e' ne have
    eb: "in_bounds er ec" and wf': "wf_board bd'"
    and cells: "\<And>r' c'. in_bounds r' c' \<Longrightarrow> (r', c') \<noteq> (er, ec) \<Longrightarrow>
              cell bd' r' c' = (if (r', c') \<in> set (jumped_squares r c p) then 0 else cell W r' c')"
    and leaf: "\<forall>(dr, dc)\<in>set (scan_dirs p'). \<not> can_jump bd' er ec p' dr dc"
    and pr: "promoted_from (cell b r c) p'" and cr: "crowned p' er = p'"
    unfolding p'_def by auto
  from apply_move_wf [OF wf ib inb e'] obtain nb where
    am: "apply_move b (r, c, p) = Some nb" and wfn: "wf_board nb"
    and cn: "\<And>r' c'. in_bounds r' c' \<Longrightarrow> cell nb r' c' =
                (if r' = er \<and> c' = ec then crowned (cell b r c) er
                 else if (r' = r \<and> c' = c) \<or> (r', c') \<in> set (jumped_squares r c p) then 0
                 else cell b r' c')"
    by blast
  define pf where "pf = cell nb er ec"
  have pf: "pf = crowned (cell b r c) er"
    using cn [OF eb] by (simp add: pf_def)
  have same: "cell nb r' c' = cell bd' r' c'" if "in_bounds r' c'" "(r', c') \<noteq> (er, ec)" for r' c'
    using cn [OF that(1)] cells [OF that] that wf ib by (auto simp: W_def cell_put)
  have nojump: "\<not> can_jump nb er ec pf dr dc" if d: "(dr, dc) \<in> set (scan_dirs pf)" for dr dc
  proof
    assume cj: "can_jump nb er ec pf dr dc"
    from d have u: "\<bar>dr\<bar> = 1" "\<bar>dc\<bar> = 1"
      by (auto dest: scan_dirs_unit)
    from cj have m: "in_bounds (er + dr) (ec + dc)" and l: "in_bounds (er + 2 * dr) (ec + 2 * dc)"
      and mv: "cell nb (er + dr) (ec + dc) * pf < 0" and lv: "cell nb (er + 2 * dr) (ec + 2 * dc) = 0"
      by (simp_all add: can_jump_def)
    have nm: "(er + dr, ec + dc) \<noteq> (er, ec)" and nl: "(er + 2 * dr, ec + 2 * dc) \<noteq> (er, ec)"
      using u by auto
    have "cell bd' (er + dr) (ec + dc) * p' < 0"
      using mv sign_promoted [OF pr cr] by (simp add: same [OF m nm] pf)
    moreover have "cell bd' (er + 2 * dr) (ec + 2 * dc) = 0"
      using lv by (simp add: same [OF l nl])
    ultimately have "can_jump bd' er ec p' dr dc"
      using m l by (simp add: can_jump_def)
    moreover from d scan_dirs_promoted [OF pr cr] have "(dr, dc) \<in> set (scan_dirs p')"
      by (auto simp: pf)
    ultimately show False
      using leaf by blast
  qed
  have "try_jump nb er ec pf d = Some None" if "d \<in> set (scan_dirs pf)" for d
    using try_jump_scan [OF wfn eb that] nojump [of "fst d" "snd d"] that by simp
  then have "jump_chains nb er ec = {[]}"
    using chains_stop [of nb er ec pf] wfn eb by (simp add: get2_wf pf_def)
  with get_piece_moves_wf [OF wfn eb] obtain nm' where "get_piece_moves nb er ec = Some (nm', [])"
    by auto
  with am wfn eb show ?thesis
    by blast
qed

section \<open>The session: clicks and undo\<close>

text \<open>
  The state of the event loop of \<open>main\<close>: the local variables that the terminal check
  at the top of the loop and the handlers of a left click, of the key \<open>U\<close> and of the key
  \<open>R\<close> read and write. \<open>undo_stack\<close> has its top at the head: \<open>append\<close> is \<open>#\<close>
  and \<open>pop\<close> takes the head.
\<close>

definition BOARD_SIZE :: int where
  "BOARD_SIZE = 800"

definition SQ :: int where
  "SQ = BOARD_SIZE div COLS"

record session =
  board :: board
  turn :: int
  selected :: "coord option"
  legal_paths_for_selected :: "path list"
  undo_stack :: "(board \<times> int) list"
  red_score :: int
  blue_score :: int

text \<open>The loop that builds \<open>all_captures\<close> for the side to move.\<close>

fun collect_captures :: "board \<Rightarrow> int \<Rightarrow> (int \<times> int) list \<Rightarrow> move list option" where
  "collect_captures b t [] = Some []"
| "collect_captures b t ((rr, cc) # rest) =
     (case get2 b rr cc of
        None \<Rightarrow> None
      | Some v \<Rightarrow>
          if v * t > 0 then
            (case get_piece_moves b rr cc of
               None \<Rightarrow> None
             | Some (nm, cm) \<Rightarrow>
                 map_option (\<lambda>all_captures. map (\<lambda>p. (rr, cc, p)) cm @ all_captures)
                   (collect_captures b t rest))
          else collect_captures b t rest)"

text \<open>
  Selecting the clicked square: the code of the branch \<open>selected is None\<close>, which the
  source repeats for a click that is not a legal destination.
\<close>

definition select_piece :: "session \<Rightarrow> int \<Rightarrow> int \<Rightarrow> int \<Rightarrow> move list \<Rightarrow> session option" where
  "select_piece s r c piece all_captures =
     (if piece * turn s > 0 then
        (case get_piece_moves (board s) r c of
           None \<Rightarrow> None
         | Some (nm, cm) \<Rightarrow>
             Some (s\<lparr>selected := Some (r, c),
                     legal_paths_for_selected := (if all_captures \<noteq> [] then cm else nm)\<rparr>))
      else Some (s\<lparr>selected := None, legal_paths_for_selected := []\<rparr>))"

text \<open>
  The search for \<open>chosen_path\<close>: \<open>p[-1]\<close> raises on an empty path; the outer option is
  the exception, the inner one Python's \<open>None\<close> for no path found.
\<close>

fun find_path :: "path list \<Rightarrow> coord \<Rightarrow> path option option" where
  "find_path [] rc = Some None"
| "find_path (p # ps) rc =
     (case getitem p (- 1) of
        None \<Rightarrow> None
      | Some x \<Rightarrow> if x = rc then Some (Some p) else find_path ps rc)"

text \<open>The flag \<open>jumped\<close>: some hop of the path, from the selected square on, spans two.\<close>

fun path_jumped :: "int \<Rightarrow> int \<Rightarrow> path \<Rightarrow> bool" where
  "path_jumped pr pc [] = False"
| "path_jumped pr pc ((nr, nc) # rest) =
     (\<bar>nr - pr\<bar> = 2 \<or> \<bar>nc - pc\<bar> = 2 \<or> path_jumped nr nc rest)"

text \<open>The branch that applies the chosen path: snapshot, move, continuation or turn switch.\<close>

definition move_piece :: "session \<Rightarrow> int \<Rightarrow> int \<Rightarrow> path \<Rightarrow> session option" where
  "move_piece s sr sc chosen_path = do {
     let stack = (clone_board (board s), turn s) # undo_stack s;
     b \<leftarrow> apply_move (board s) (sr, sc, chosen_path);
     (end_r, end_c) \<leftarrow> getitem chosen_path (- 1);
     (nm, further_caps) \<leftarrow> get_piece_moves b end_r end_c;
     let jumped = path_jumped sr sc chosen_path;
     if jumped \<and> further_caps \<noteq> [] then
       Some (s\<lparr>board := b, undo_stack := stack, selected := Some (end_r, end_c),
               legal_paths_for_selected := further_caps\<rparr>)
     else
       Some (s\<lparr>board := b, undo_stack := stack, turn := turn s * (- 1), selected := None,
               legal_paths_for_selected := []\<rparr>)
   }"

definition mouse_down :: "session \<Rightarrow> int \<Rightarrow> int \<Rightarrow> session option" where
  "mouse_down s mx my =
     (if mx < 0 \<or> mx \<ge> BOARD_SIZE \<or> my < 0 \<or> my \<ge> BOARD_SIZE then Some s
      else
        let r = my div SQ; c = mx div SQ in
        (case get2 (board s) r c of
           None \<Rightarrow> None
         | Some piece \<Rightarrow>
             (case collect_captures (board s) (turn s) all_squares of
                None \<Rightarrow> None
              | Some all_captures \<Rightarrow>
                  (case selected s of
                     None \<Rightarrow> select_piece s r c piece all_captures
                   | Some (sr, sc) \<Rightarrow>
                       (case find_path (legal_paths_for_selected s) (r, c) of
                          None \<Rightarrow> None
                        | Some None \<Rightarrow> select_piece s r c piece all_captures
                        | Some (Some chosen_path) \<Rightarrow>
                            if chosen_path \<noteq> [] then move_piece s sr sc chosen_path
                            else select_piece s r c piece all_captures)))))"

definition key_u :: "session \<Rightarrow> session" where
  "key_u s =
     (case undo_stack s of
        [] \<Rightarrow> s
      | (b, t) # rest \<Rightarrow>
          s\<lparr>board := b, turn := t, undo_stack := rest, selected := None,
            legal_paths_for_selected := []\<rparr>)"

definition key_r :: "session \<Rightarrow> session option" where
  "key_r s =
     map_option (\<lambda>b. s\<lparr>board := b, turn := 1, selected := None,
                         legal_paths_for_selected := [], undo_stack := []\<rparr>) initial_board"

text \<open>
  \<open>show_win_popup\<close> loops until the player presses \<open>R\<close>, and then returns \<open>"restart"\<close>,
  or presses \<open>Q\<close> or closes the window, and then ends the process. It reads no other key,
  so it offers no undo.
\<close>

datatype popup_answer = Restart | Exit

text \<open>
  The terminal check at the top of every iteration of the loop, before the events of the
  iteration are read. The outer option is the \<open>IndexError\<close>; the inner one is
  \<^term>\<open>None\<close> when the process ends inside the popup, and otherwise the state with
  which the loop goes on: on a board that is not terminal the state as it is, after a
  restart the initial board with Red to move, nothing selected and an empty undo stack.
\<close>

definition terminal_check :: "session \<Rightarrow> popup_answer \<Rightarrow> session option option" where
  "terminal_check s answer =
     (case is_terminal (board s) of
        None \<Rightarrow> None
      | Some terminal \<Rightarrow>
          if terminal then
            (case winner (board s) of
               None \<Rightarrow> None
             | Some w \<Rightarrow>
                 let s1 = (if w = Some ''Red'' then s\<lparr>red_score := red_score s + 1\<rparr>
                           else if w = Some ''Blue'' then s\<lparr>blue_score := blue_score s + 1\<rparr>
                           else s)
                 in (case answer of
                       Exit \<Rightarrow> Some None
                     | Restart \<Rightarrow>
                         map_option
                           (\<lambda>b. Some (s1\<lparr>board := b, turn := 1, selected := None,
                                          legal_paths_for_selected := [], undo_stack := []\<rparr>))
                           initial_board))
          else Some (Some s))"

text \<open>
  What holds of the state between two events: the boards are well formed and the offered
  paths are the normal or the capture paths that \<open>get_piece_moves\<close> returns for the
  selected square on the current board.
\<close>

definition session_ok :: "session \<Rightarrow> bool" where
  "session_ok s \<longleftrightarrow>
     wf_board (board s) \<and> list_all (\<lambda>(b, t). wf_board b) (undo_stack s) \<and>
     (case selected s of
        None \<Rightarrow> True
      | Some (sr, sc) \<Rightarrow>
          in_bounds sr sc \<and>
          (case get_piece_moves (board s) sr sc of
             None \<Rightarrow> False
           | Some (nm, cm) \<Rightarrow>
               legal_paths_for_selected s = nm \<or> legal_paths_for_selected s = cm))"

lemma collect_captures_wf:
  assumes "wf_board b" "\<forall>(r, c)\<in>set sq. in_bounds r c"
  shows "collect_captures b t sq \<noteq> None"
  using assms(2)
proof (induction sq)
  case Nil
  show ?case by simp
next
  case (Cons x sq)
  obtain r c where x: "x = (r, c)" by (cases x)
  with Cons.prems have rc: "in_bounds r c" by simp
  from get_piece_moves_wf [OF assms(1) rc] obtain nm cm where
    "get_piece_moves b r c = Some (nm, cm)" by blast
  with Cons rc assms(1) show ?case
    by (auto simp: x get2_wf)
qed

lemma select_piece_ok:
  assumes "wf_board (board s)" "list_all (\<lambda>(b, t). wf_board b) (undo_stack s)" "in_bounds r c"
  shows "\<exists>s'. select_piece s r c piece caps = Some s' \<and> session_ok s' \<and>
           board s' = board s \<and> turn s' = turn s \<and> undo_stack s' = undo_stack s"
proof -
  from get_piece_moves_wf [OF assms(1,3)] obtain nm cm where
    "get_piece_moves (board s) r c = Some (nm, cm)" by blast
  with assms show ?thesis
    by (simp add: select_piece_def session_ok_def)
qed

lemma find_path_Some:
  assumes "find_path ps rc = Some (Some p)"
  shows "p \<in> set ps \<and> p \<noteq> [] \<and> last p = rc"
  using assms
proof (induction ps)
  case Nil
  then show ?case by simp
next
  case (Cons q ps)
  show ?case
  proof (cases "q = []")
    case True
    with Cons.prems show ?thesis
      by (simp add: getitem_def py_index_def)
  next
    case False
    then have "getitem q (- 1) = Some (last q)"
      by (cases q rule: rev_cases) (auto simp: getitem_def py_index_def nth_append)
    with Cons False show ?thesis
      by (auto split: if_splits)
  qed
qed

lemma find_path_total:
  assumes "[] \<notin> set ps"
  shows "find_path ps rc \<noteq> None"
  using assms
proof (induction ps)
  case Nil
  show ?case by simp
next
  case (Cons q ps)
  then have "q \<noteq> []" by auto
  then have "getitem q (- 1) = Some (last q)"
    by (cases q rule: rev_cases) (auto simp: getitem_def py_index_def nth_append)
  with Cons show ?case
    by auto
qed

lemma normal_path_not_jumped:
  assumes "wf_board b" "in_bounds r c" "get_piece_moves b r c = Some (nm, cm)" "p \<in> set nm"
  shows "\<not> path_jumped r c p"
proof -
  from get_piece_moves_wf [OF assms(1,2)] assms(3,4) obtain dr dc where
    "(dr, dc) \<in> set (piece_dirs (cell b r c))" "p = [(r + dr, c + dc)]"
    by (auto split: if_splits)
  with piece_dirs_unit [OF this(1)] show ?thesis
    by auto
qed

lemma move_piece_ok:
  assumes ok: "session_ok s" and sel: "selected s = Some (sr, sc)"
    and p: "p \<in> set (legal_paths_for_selected s)"
  shows "\<exists>nb. move_piece s sr sc p =
           Some (s\<lparr>board := nb, undo_stack := (board s, turn s) # undo_stack s,
                   turn := - turn s, selected := None, legal_paths_for_selected := []\<rparr>) \<and>
           wf_board nb"
proof -
  from ok sel have wf: "wf_board (board s)" and ib: "in_bounds sr sc"
    by (simp_all add: session_ok_def)
  from ok sel obtain nm cm where g: "get_piece_moves (board s) sr sc = Some (nm, cm)"
    and l: "legal_paths_for_selected s = nm \<or> legal_paths_for_selected s = cm"
    by (auto simp: session_ok_def split: option.splits)
  from l p have pin: "p \<in> set nm \<union> set cm"
    by auto
  from generated_paths [OF wf ib g pin] have ne: "p \<noteq> []"
    and inb: "\<forall>(r', c')\<in>set p. in_bounds r' c'"
    by auto
  obtain er ec where e: "last p = (er, ec)"
    by (cases "last p")
  from ne e have gi: "getitem p (- 1) = Some (er, ec)"
    by (cases p rule: rev_cases) (auto simp: getitem_def py_index_def nth_append)
  from ne e have e': "last ((sr, sc) # p) = (er, ec)"
    by simp
  have "\<exists>nb nm' fc. apply_move (board s) (sr, sc, p) = Some nb \<and> wf_board nb \<and>
          get_piece_moves nb er ec = Some (nm', fc) \<and> \<not> (path_jumped sr sc p \<and> fc \<noteq> [])"
  proof (cases "p \<in> set cm")
    case True
    from no_capture_after_capture [OF wf ib g True e] show ?thesis
      by auto
  next
    case False
    with pin have "p \<in> set nm" by simp
    from normal_path_not_jumped [OF wf ib g this] have nj: "\<not> path_jumped sr sc p" .
    from apply_move_wf [OF wf ib inb e'] obtain nb where
      nb: "apply_move (board s) (sr, sc, p) = Some nb" "wf_board nb"
      by blast
    from ne e have "(er, ec) \<in> set p"
      by (metis last_in_set)
    with inb have "in_bounds er ec"
      by auto
    from get_piece_moves_wf [OF nb(2) this] obtain nm' fc where
      "get_piece_moves nb er ec = Some (nm', fc)" by blast
    with nb nj show ?thesis
      by blast
  qed
  then obtain nb nm' fc where
    "apply_move (board s) (sr, sc, p) = Some nb" "wf_board nb"
    "get_piece_moves nb er ec = Some (nm', fc)" "\<not> (path_jumped sr sc p \<and> fc \<noteq> [])"
    by blast
  then show ?thesis
    by (auto simp: move_piece_def gi clone_board_def Let_def)
qed

lemma mouse_down_turn:
  assumes "session_ok s"
  shows "\<exists>s'. mouse_down s mx my = Some s' \<and> session_ok s' \<and>
           ((board s' = board s \<and> turn s' = turn s \<and> undo_stack s' = undo_stack s) \<or>
            (undo_stack s' = (board s, turn s) # undo_stack s \<and> turn s' = - turn s \<and>
             selected s' = None \<and>
             key_u s' = s\<lparr>selected := None, legal_paths_for_selected := []\<rparr>))"
proof (cases "mx < 0 \<or> mx \<ge> BOARD_SIZE \<or> my < 0 \<or> my \<ge> BOARD_SIZE")
  case True
  with assms show ?thesis
    by (simp add: mouse_down_def)
next
  case False
  define r c where "r = my div SQ" and "c = mx div SQ"
  from False have rc: "in_bounds r c"
    by (auto simp: r_def c_def in_bounds_def SQ_def BOARD_SIZE_def ROWS_def COLS_def)
  from assms have wf: "wf_board (board s)" and st: "list_all (\<lambda>(b, t). wf_board b) (undo_stack s)"
    by (simp_all add: session_ok_def)
  define piece where "piece = cell (board s) r c"
  have g: "get2 (board s) r c = Some piece"
    using wf rc by (simp add: get2_wf piece_def)
  have "\<forall>(r, c)\<in>set all_squares. in_bounds r c"
    by (simp add: set_all_squares)
  from collect_captures_wf [OF wf this] obtain caps where
    caps: "collect_captures (board s) (turn s) all_squares = Some caps"
    by blast
  note sp = select_piece_ok [OF wf st rc, of piece caps]
  show ?thesis
  proof (cases "selected s")
    case None
    with sp False g caps show ?thesis
      by (auto simp: mouse_down_def Let_def r_def [symmetric] c_def [symmetric])
  next
    case (Some x)
    obtain sr sc where x: "x = (sr, sc)" by (cases x)
    from assms Some x obtain nm cm where gm: "get_piece_moves (board s) sr sc = Some (nm, cm)"
      and l: "legal_paths_for_selected s = nm \<or> legal_paths_for_selected s = cm"
      and ib: "in_bounds sr sc"
      by (auto simp: session_ok_def split: option.splits)
    have "[] \<notin> set (legal_paths_for_selected s)"
      using generated_paths [OF wf ib gm] l by auto
    from find_path_total [OF this] obtain chosen where
      fp: "find_path (legal_paths_for_selected s) (r, c) = Some chosen"
      by blast
    show ?thesis
    proof (cases chosen)
      case None
      with sp False g caps Some x fp show ?thesis
        by (auto simp: mouse_down_def Let_def r_def [symmetric] c_def [symmetric])
    next
      case (Some p)
      with fp find_path_Some have p: "p \<in> set (legal_paths_for_selected s)" "p \<noteq> []"
        by blast+
      from move_piece_ok [OF assms \<open>selected s = Some x\<close> [unfolded x] p(1)] obtain nb where
        mp: "move_piece s sr sc p =
           Some (s\<lparr>board := nb, undo_stack := (board s, turn s) # undo_stack s,
                   turn := - turn s, selected := None, legal_paths_for_selected := []\<rparr>)"
        and wfn: "wf_board nb"
        by blast
      have md: "mouse_down s mx my =
           Some (s\<lparr>board := nb, undo_stack := (board s, turn s) # undo_stack s,
                   turn := - turn s, selected := None, legal_paths_for_selected := []\<rparr>)"
        using False g caps \<open>selected s = Some x\<close> x fp Some p(2) mp
        by (simp add: mouse_down_def Let_def r_def [symmetric] c_def [symmetric])
      show ?thesis
        unfolding md using wf st wfn
        by (simp add: session_ok_def key_u_def)
    qed
  qed
qed

lemma is_terminal_wf:
  assumes "wf_board b"
  shows "is_terminal b = Some (\<not> has_piece b 1 \<or> \<not> has_piece b (- 1))"
  using assms by (simp add: is_terminal_def red_blue_wf)

lemma winner_wf: "wf_board b \<Longrightarrow> winner b \<noteq> None"
  by (simp add: winner_def red_blue_wf)

lemma terminal_check_running:
  "is_terminal (board s) = Some False \<Longrightarrow> terminal_check s answer = Some (Some s)"
  by (simp add: terminal_check_def)

lemma terminal_check_terminal:
  assumes "wf_board (board s)" "is_terminal (board s) = Some True"
  shows "terminal_check s Exit = Some None \<and>
         (\<exists>s'. terminal_check s Restart = Some (Some s') \<and> session_ok s' \<and>
               board s' = start_board \<and> turn s' = 1 \<and> undo_stack s' = [] \<and> key_u s' = s')"
proof -
  from winner_wf [OF assms(1)] obtain w where w: "winner (board s) = Some w"
    by auto
  define s1 where "s1 = (if w = Some ''Red'' then s\<lparr>red_score := red_score s + 1\<rparr>
                           else if w = Some ''Blue'' then s\<lparr>blue_score := blue_score s + 1\<rparr>
                           else s)"
  define s2 where "s2 = s1\<lparr>board := start_board, turn := 1, selected := None,
                            legal_paths_for_selected := [], undo_stack := []\<rparr>"
  have e: "terminal_check s Exit = Some None"
    using assms(2) w by (simp add: terminal_check_def Let_def)
  have r: "terminal_check s Restart = Some (Some s2)"
    using assms(2) w
    by (simp add: terminal_check_def Let_def initial_board_eq s2_def s1_def)
  have "session_ok s2" "board s2 = start_board" "turn s2 = 1" "undo_stack s2 = []"
    "key_u s2 = s2"
    by (simp_all add: s2_def session_ok_def wf_start_board key_u_def)
  with e r show ?thesis
    by blast
qed

text \<open>
  Claim C7, amended. In a state of the session as above, a left click either leaves board,
  side to move and undo stack as they are (it only changes the selection), or it applies a
  chosen path, which completes the turn: the snapshot of board and side to move from
  before the click is pushed, the side to move switches, no selection stays pending, and
  the handler of \<open>U\<close>, run on that state, gives back the state from before the click
  with the selection cleared. A multi-jump path is applied by one such click; the
  continuation branch of the source is never taken, because an applied capture path leaves
  no further capture to its piece. The terminal check of the next iteration leaves the
  state as it is when the board is not terminal, so the undo is then still possible; when
  the board is terminal the process ends in the popup or the game restarts with an empty
  undo stack, and the handler of \<open>U\<close> changes nothing any more.
\<close>

theorem undo_restores_turn:
  assumes "session_ok s"
  shows "\<exists>s'. mouse_down s mx my = Some s' \<and> session_ok s' \<and>
           ((board s' = board s \<and> turn s' = turn s \<and> undo_stack s' = undo_stack s) \<or>
            (undo_stack s' = (board s, turn s) # undo_stack s \<and> turn s' = - turn s \<and>
             selected s' = None \<and>
             key_u s' = s\<lparr>selected := None, legal_paths_for_selected := []\<rparr>)) \<and>
           (is_terminal (board s') = Some False \<or> is_terminal (board s') = Some True) \<and>
           (is_terminal (board s') = Some False \<longrightarrow>
              terminal_check s' Restart = Some (Some s') \<and>
              terminal_check s' Exit = Some (Some s')) \<and>
           (is_terminal (board s') = Some True \<longrightarrow>
              terminal_check s' Exit = Some None \<and>
              (\<exists>s''. terminal_check s' Restart = Some (Some s'') \<and> session_ok s'' \<and>
                     board s'' = start_board \<and> turn s'' = 1 \<and> undo_stack s'' = [] \<and>
                     key_u s'' = s''))"
proof -
  from mouse_down_turn [OF assms, of mx my] obtain s' where
    s': "mouse_down s mx my = Some s'" "session_ok s'"
    "(board s' = board s \<and> turn s' = turn s \<and> undo_stack s' = undo_stack s) \<or>
     (undo_stack s' = (board s, turn s) # undo_stack s \<and> turn s' = - turn s \<and>
      selected s' = None \<and>
      key_u s' = s\<lparr>selected := None, legal_paths_for_selected := []\<rparr>)"
    by blast
  from s'(2) have wf: "wf_board (board s')"
    by (simp add: session_ok_def)
  have t: "is_terminal (board s') = Some False \<or> is_terminal (board s') = Some True"
    by (auto simp: is_terminal_wf [OF wf])
  have run: "is_terminal (board s') = Some False \<longrightarrow>
              terminal_check s' Restart = Some (Some s') \<and>
              terminal_check s' Exit = Some (Some s')"
    by (simp add: terminal_check_running)
  have stop: "is_terminal (board s') = Some True \<longrightarrow>
              terminal_check s' Exit = Some None \<and>
              (\<exists>s''. terminal_check s' Restart = Some (Some s'') \<and> session_ok s'' \<and>
                     board s'' = start_board \<and> turn s'' = 1 \<and> undo_stack s'' = [] \<and>
                     key_u s'' = s'')"
    using terminal_check_terminal [OF wf] by blast
  from s' t run stop show ?thesis
    by blast
qed

definition fork_after :: board where
  "fork_after =
     [[0, 0, 0, 0, 0, 0, 0, 0],
      [0, 0, 0, 0, 0, 0, 0, 0],
      [0, 0, 0, 1, 0, 0, 0, 0],
      [0, 0, 0, 0, 0, 0, 0, 0],
      [0, 0, 0, 0, 0, 0, 0, 0],
      [0, 0, 0, 0, - 1, 0, 0, 0],
      [0, 0, 0, 0, 0, 0, 0, 0],
      [0, 0, 0, 0, 0, 0, 0, 0]]"

definition fork_session :: session where
  "fork_session =
     \<lparr>board = fork_board, turn = 1, selected = Some (6, 3),
      legal_paths_for_selected = [[(4, 1), (2, 3)], [(4, 5)]], undo_stack = [],
      red_score = 0, blue_score = 0\<rparr>"

definition fork_session_after :: session where
  "fork_session_after =
     \<lparr>board = fork_after, turn = - 1, selected = None,
      legal_paths_for_selected = [], undo_stack = [(fork_board, 1)],
      red_score = 0, blue_score = 0\<rparr>"

lemma session_ok_key_u: "session_ok s \<Longrightarrow> session_ok (key_u s)"
  by (auto simp: session_ok_def key_u_def split: list.splits)

lemma session_ok_key_r: "\<exists>s'. key_r s = Some s' \<and> session_ok s'"
  by (simp add: key_r_def initial_board_eq session_ok_def wf_start_board)

lemma session_ok_initial:
  "session_ok \<lparr>board = start_board, turn = 1, selected = None,
               legal_paths_for_selected = [], undo_stack = [], red_score = 0, blue_score = 0\<rparr>"
  by (simp add: session_ok_def wf_start_board)

text \<open>
  Red plays the double jump from \<open>(6, 3)\<close> over \<open>(4, 1)\<close> to \<open>(2, 3)\<close> with one click;
  the turn passes to Blue, Blue still has a man, the terminal check lets the state pass,
  and undo restores the board and Red to move.
\<close>

theorem undo_restores_turn_witness:
  "session_ok fork_session \<and>
   mouse_down fork_session 350 250 = Some fork_session_after \<and>
   turn fork_session_after = - turn fork_session \<and>
   is_terminal (board fork_session_after) = Some False \<and>
   terminal_check fork_session_after Restart = Some (Some fork_session_after) \<and>
   board (key_u fork_session_after) = fork_board \<and> turn (key_u fork_session_after) = 1"
proof -
  have g: "get_piece_moves fork_board 6 3 = Some ([], [[(4, 1), (2, 3)], [(4, 5)]])"
    by code_simp
  have ok: "session_ok fork_session"
    by (simp add: session_ok_def fork_session_def wf_fork_board g in_bounds_def ROWS_def COLS_def)
  have md: "mouse_down fork_session 350 250 = Some fork_session_after"
    by code_simp
  have t: "turn fork_session_after \<noteq> turn fork_session"
    by (simp add: fork_session_def fork_session_after_def)
  have nt: "is_terminal (board fork_session_after) = Some False"
    by code_simp
  note inst = undo_restores_turn [OF ok, of 350 250]
  from inst md t
  have "key_u fork_session_after =
        fork_session\<lparr>selected := None, legal_paths_for_selected := []\<rparr>"
    by auto
  then have u: "board (key_u fork_session_after) = fork_board"
    "turn (key_u fork_session_after) = 1"
    by (simp_all add: fork_session_def)
  from inst md nt have tc: "terminal_check fork_session_after Restart = Some (Some fork_session_after)"
    by auto
  have "turn fork_session_after = - turn fork_session"
    by (simp add: fork_session_def fork_session_after_def)
  with ok md nt tc u show ?thesis
    by (simp only: simp_thms)
qed

definition last_board :: board where
  "last_board =
     [[0, 0, 0, 0, 0, 0, 0, 0],
      [0, 0, - 1, 0, 0, 0, 0, 0],
      [0, 1, 0, 0, 0, 0, 0, 0],
      [0, 0, 0, 0, 0, 0, 0, 0],
      [0, 0, 0, 0, 0, 0, 0, 0],
      [0, 0, 0, 0, 0, 0, 0, 0],
      [0, 0, 0, 0, 0, 0, 0, 0],
      [0, 0, 0, 0, 0, 0, 0, 0]]"

definition last_after :: board where
  "last_after =
     [[0, 0, 0, 2, 0, 0, 0, 0],
      [0, 0, 0, 0, 0, 0, 0, 0],
      [0, 0, 0, 0, 0, 0, 0, 0],
      [0, 0, 0, 0, 0, 0, 0, 0],
      [0, 0, 0, 0, 0, 0, 0, 0],
      [0, 0, 0, 0, 0, 0, 0, 0],
      [0, 0, 0, 0, 0, 0, 0, 0],
      [0, 0, 0, 0, 0, 0, 0, 0]]"

definition last_session :: session where
  "last_session =
     \<lparr>board = last_board, turn = 1, selected = Some (2, 1),
      legal_paths_for_selected = [[(0, 3)]], undo_stack = [],
      red_score = 0, blue_score = 0\<rparr>"

definition last_session_after :: session where
  "last_session_after =
     \<lparr>board = last_after, turn = - 1, selected = None,
      legal_paths_for_selected = [], undo_stack = [(last_board, 1)],
      red_score = 0, blue_score = 0\<rparr>"

definition last_session_restart :: session where
  "last_session_restart =
     \<lparr>board = start_board, turn = 1, selected = None,
      legal_paths_for_selected = [], undo_stack = [],
      red_score = 1, blue_score = 0\<rparr>"

lemma wf_last_board: "wf_board last_board"
  by (simp add: wf_board_def last_board_def ROWS_def COLS_def)

text \<open>
  Claim C7 says that undo restores board and side to move after every completed turn.
  Red takes the last Blue man with the capture that \<open>get_piece_moves\<close> offers. The next
  iteration of the loop finds the board terminal and opens the popup: with \<open>Q\<close> the
  process ends, with \<open>R\<close> the game restarts with an empty undo stack, and the handler of
  \<open>U\<close> then leaves the initial board, which is not the board from before the turn.
\<close>

theorem undo_after_win_counterexample:
  "session_ok last_session \<and>
   get_piece_moves last_board 2 1 = Some ([[(1, 0)]], [[(0, 3)]]) \<and>
   mouse_down last_session 350 50 = Some last_session_after \<and>
   turn last_session_after = - turn last_session \<and>
   is_terminal (board last_session_after) = Some True \<and>
   terminal_check last_session_after Exit = Some None \<and>
   terminal_check last_session_after Restart = Some (Some last_session_restart) \<and>
   key_u last_session_restart = last_session_restart \<and>
   board (key_u last_session_restart) \<noteq> board last_session"
proof -
  have g: "get_piece_moves last_board 2 1 = Some ([[(1, 0)]], [[(0, 3)]])"
    by code_simp
  have ok: "session_ok last_session"
    by (simp add: session_ok_def last_session_def wf_last_board g in_bounds_def ROWS_def COLS_def)
  have md: "mouse_down last_session 350 50 = Some last_session_after"
    by code_simp
  have t: "turn last_session_after = - turn last_session"
    by (simp add: last_session_def last_session_after_def)
  have it: "is_terminal (board last_session_after) = Some True"
    by code_simp
  have e: "terminal_check last_session_after Exit = Some None"
    by code_simp
  have r: "terminal_check last_session_after Restart = Some (Some last_session_restart)"
    by code_simp
  have u: "key_u last_session_restart = last_session_restart"
    by (simp add: key_u_def last_session_restart_def)
  have "board last_session_restart \<noteq> board last_session"
    by (simp add: last_session_restart_def last_session_def start_board_def last_board_def)
  then have n: "board (key_u last_session_restart) \<noteq> board last_session"
    unfolding u .
  from ok g md t it e r u n show ?thesis
    by (simp only: simp_thms)
qed

section \<open>The input board is never mutated\<close>

text \<open>
  In Python a board is a list object that holds references to row objects, and an
  assignment \<open>nb[r][c] = v\<close> changes a row object in place. To say that a function
  leaves its input board alone, the rows live in a store: the row object with address
  \<open>a\<close> is the \<open>a\<close>-th entry of the store, a new object gets the next free address, and a
  board is the list of the addresses of its rows (the outer lists are never assigned to,
  so their identity does not matter). \<open>board_at h b\<close> is the value of the board \<open>b\<close> in
  the store \<open>h\<close>. The operations of the program come again, now passing the store
  along; the recursion of \<open>dfs\<close> takes fuel, and enough fuel is shown to give the result.
\<close>

type_synonym store = "int list list"
type_synonym board_ref = "nat list"

definition row_at :: "store \<Rightarrow> nat \<Rightarrow> int list option" where
  "row_at h a = (if a < length h then Some (h ! a) else None)"

definition board_at :: "store \<Rightarrow> board_ref \<Rightarrow> board option" where
  "board_at h b = those (map (row_at h) b)"

definition st_get2 :: "store \<Rightarrow> board_ref \<Rightarrow> int \<Rightarrow> int \<Rightarrow> int option" where
  "st_get2 h b r c =
     Option.bind (getitem b r) (\<lambda>a. Option.bind (row_at h a) (\<lambda>row. getitem row c))"

definition st_set2 :: "store \<Rightarrow> board_ref \<Rightarrow> int \<Rightarrow> int \<Rightarrow> int \<Rightarrow> store option" where
  "st_set2 h b r c v =
     Option.bind (getitem b r) (\<lambda>a.
     Option.bind (row_at h a) (\<lambda>row.
     Option.bind (setitem row c v) (\<lambda>row'. Some (h[a := row']))))"

definition st_clone_board :: "store \<Rightarrow> board_ref \<Rightarrow> (store \<times> board_ref) option" where
  "st_clone_board h b =
     map_option (\<lambda>rows. (h @ rows, [length h ..< length h + length rows])) (board_at h b)"

fun st_normal_scan ::
  "store \<Rightarrow> board_ref \<Rightarrow> int \<Rightarrow> int \<Rightarrow> (int \<times> int) list \<Rightarrow> path list option" where
  "st_normal_scan h b r c [] = Some []"
| "st_normal_scan h b r c ((dr, dc) # ds) =
     (let nr = r + dr; nc = c + dc in
      if in_bounds nr nc then
        (case st_get2 h b nr nc of
           None \<Rightarrow> None
         | Some v \<Rightarrow>
             (if v = 0 then map_option (\<lambda>rest. [(nr, nc)] # rest) (st_normal_scan h b r c ds)
              else st_normal_scan h b r c ds))
      else st_normal_scan h b r c ds)"

definition st_do_jump ::
  "store \<Rightarrow> board_ref \<Rightarrow> int \<Rightarrow> int \<Rightarrow> int \<Rightarrow> int \<Rightarrow> int \<Rightarrow> int \<Rightarrow> (store \<times> board_ref) option" where
  "st_do_jump h bd cr cc mr mc lr lc = do {
     (h, nb) \<leftarrow> st_clone_board h bd;
     v \<leftarrow> st_get2 h nb cr cc;
     h \<leftarrow> st_set2 h nb lr lc v;
     h \<leftarrow> st_set2 h nb cr cc 0;
     h \<leftarrow> st_set2 h nb mr mc 0;
     x \<leftarrow> st_get2 h nb lr lc;
     h \<leftarrow> (if x = 1 \<and> lr = 0 then st_set2 h nb lr lc 2 else Some h);
     y \<leftarrow> st_get2 h nb lr lc;
     h \<leftarrow> (if y = - 1 \<and> lr = ROWS - 1 then st_set2 h nb lr lc (- 2) else Some h);
     Some (h, nb)
   }"

definition st_try_jump ::
  "store \<Rightarrow> board_ref \<Rightarrow> int \<Rightarrow> int \<Rightarrow> int \<Rightarrow> int \<times> int \<Rightarrow>
   (store \<times> board_ref \<times> int \<times> int) option option" where
  "st_try_jump h bd cr cc pc d =
     (case d of (dr, dc) \<Rightarrow>
        let mr = cr + dr; mc = cc + dc; lr = cr + 2 * dr; lc = cc + 2 * dc in
        if in_bounds mr mc \<and> in_bounds lr lc then
          (case st_get2 h bd mr mc of
             None \<Rightarrow> None
           | Some m \<Rightarrow>
               if m \<noteq> 0 \<and> m * pc < 0 then
                 (case st_get2 h bd lr lc of
                    None \<Rightarrow> None
                  | Some l \<Rightarrow>
                      if l = 0 then
                        map_option (\<lambda>(h', nb). Some (h', nb, lr, lc))
                          (st_do_jump h bd cr cc mr mc lr lc)
                      else Some None)
               else Some None)
        else Some None)"

fun st_for_dirs ::
  "(store \<Rightarrow> 'd \<Rightarrow> (store \<times> 'j) option option) \<Rightarrow> (store \<Rightarrow> 'j \<Rightarrow> (store \<times> path list) option) \<Rightarrow>
   store \<Rightarrow> 'd list \<Rightarrow> (store \<times> bool \<times> path list) option" where
  "st_for_dirs tj rec h [] = Some (h, False, [])"
| "st_for_dirs tj rec h (d # ds) =
     (case tj h d of
        None \<Rightarrow> None
      | Some None \<Rightarrow> st_for_dirs tj rec h ds
      | Some (Some (h1, j)) \<Rightarrow>
          (case rec h1 j of
             None \<Rightarrow> None
           | Some (h2, sub) \<Rightarrow>
               (case st_for_dirs tj rec h2 ds of
                  None \<Rightarrow> None
                | Some (h3, found_any, caps) \<Rightarrow> Some (h3, True, sub @ caps))))"

primrec st_dfs ::
  "nat \<Rightarrow> store \<Rightarrow> board_ref \<Rightarrow> int \<Rightarrow> int \<Rightarrow> path \<Rightarrow> (store \<times> path list) option" where
  "st_dfs 0 h bd cr cc path = None"
| "st_dfs (Suc fuel) h bd cr cc path =
     (case st_get2 h bd cr cc of
        None \<Rightarrow> None
      | Some pc \<Rightarrow>
          (case st_for_dirs (\<lambda>h d. st_try_jump h bd cr cc pc d)
                  (\<lambda>h (nb, lr, lc). st_dfs fuel h nb lr lc (path @ [(lr, lc)])) h (scan_dirs pc) of
             None \<Rightarrow> None
           | Some (h', found_any, caps) \<Rightarrow>
               Some (h', if \<not> found_any \<and> path \<noteq> [] then caps @ [path] else caps)))"

definition st_get_piece_moves ::
  "nat \<Rightarrow> store \<Rightarrow> board_ref \<Rightarrow> int \<Rightarrow> int \<Rightarrow> (store \<times> path list \<times> path list) option" where
  "st_get_piece_moves fuel h b r c =
     (case st_get2 h b r c of
        None \<Rightarrow> None
      | Some piece \<Rightarrow>
          if piece = 0 then Some (h, [], [])
          else
            let color = (if piece > 0 then 1 else - 1);
                king = (\<bar>piece\<bar> = 2);
                directions = (if king then king_dirs else man_dirs color)
            in (case st_normal_scan h b r c directions of
                  None \<Rightarrow> None
                | Some normal_moves \<Rightarrow>
                    (case st_dfs fuel h b r c [] of
                       None \<Rightarrow> None
                     | Some (h', capture_moves) \<Rightarrow> Some (h', normal_moves, capture_moves))))"

fun st_walk_path ::
  "store \<Rightarrow> board_ref \<Rightarrow> int \<Rightarrow> int \<Rightarrow> path \<Rightarrow> (store \<times> int \<times> int) option" where
  "st_walk_path h nb cr cc [] = Some (h, cr, cc)"
| "st_walk_path h nb cr cc ((nr, nc) # rest) =
     (if \<bar>nr - cr\<bar> = 2 \<or> \<bar>nc - cc\<bar> = 2 then
        (case st_set2 h nb ((nr + cr) div 2) ((nc + cc) div 2) 0 of
           None \<Rightarrow> None
         | Some h' \<Rightarrow> st_walk_path h' nb nr nc rest)
      else st_walk_path h nb nr nc rest)"

definition st_apply_move :: "store \<Rightarrow> board_ref \<Rightarrow> move \<Rightarrow> (store \<times> board_ref) option" where
  "st_apply_move h b move =
     (case move of (sr, sc, path) \<Rightarrow> do {
        (h, nb) \<leftarrow> st_clone_board h b;
        piece \<leftarrow> st_get2 h nb sr sc;
        h \<leftarrow> st_set2 h nb sr sc 0;
        (h, cr, cc) \<leftarrow> st_walk_path h nb sr sc path;
        h \<leftarrow> st_set2 h nb cr cc piece;
        x \<leftarrow> st_get2 h nb cr cc;
        h \<leftarrow> (if x = 1 \<and> cr = 0 then st_set2 h nb cr cc 2 else Some h);
        y \<leftarrow> st_get2 h nb cr cc;
        h \<leftarrow> (if y = - 1 \<and> cr = ROWS - 1 then st_set2 h nb cr cc (- 2) else Some h);
        Some (h, nb)
      })"

text \<open>
  \<open>unchanged h h'\<close>: every object of the store \<open>h\<close> is in \<open>h'\<close> with the same value.
  \<open>block h rows\<close> are the addresses of the next \<open>length rows\<close> free objects of \<open>h\<close>.
\<close>

definition unchanged :: "store \<Rightarrow> store \<Rightarrow> bool" where
  "unchanged h h' \<longleftrightarrow> length h \<le> length h' \<and> take (length h) h' = h"

definition block :: "store \<Rightarrow> board \<Rightarrow> board_ref" where
  "block h rows = [length h ..< length h + length rows]"

lemma row_at_append:
  "row_at (h @ rows) a =
     (if a < length h then Some (h ! a)
      else if a < length h + length rows then Some (rows ! (a - length h)) else None)"
  by (auto simp: row_at_def nth_append)

lemma getitem_length: "getitem xs i = Some x \<Longrightarrow> \<exists>k < length xs. x = xs ! k"
  by (auto simp: getitem_def dest: py_index_less)

lemma getitem_block:
  "getitem (block h rows) r = map_option (\<lambda>k. length h + k) (py_index (length rows) r)"
  by (cases "py_index (length rows) r") (auto simp: getitem_def block_def dest: py_index_less)

lemma st_get2_block: "st_get2 (h @ rows) (block h rows) r c = get2 rows r c"
proof (cases "py_index (length rows) r")
  case None
  then show ?thesis
    unfolding st_get2_def get2_def getitem_block by (simp add: getitem_def)
next
  case (Some k)
  then have "k < length rows"
    by (rule py_index_less)
  with Some show ?thesis
    unfolding st_get2_def get2_def getitem_block by (simp add: getitem_def row_at_append)
qed

lemma st_set2_block:
  "st_set2 (h @ rows) (block h rows) r c v = map_option (\<lambda>rows'. h @ rows') (set2 rows r c v)"
proof (cases "py_index (length rows) r")
  case None
  then show ?thesis
    unfolding st_set2_def set2_def getitem_block by (simp add: getitem_def)
next
  case (Some k)
  then have k: "k < length rows"
    by (rule py_index_less)
  show ?thesis
  proof (cases "setitem (rows ! k) c v")
    case None
    with Some k show ?thesis
      unfolding st_set2_def set2_def getitem_block by (simp add: getitem_def row_at_append)
  next
    case (Some row')
    with \<open>py_index (length rows) r = Some k\<close> k show ?thesis
      unfolding st_set2_def set2_def getitem_block
      by (auto simp: getitem_def setitem_def row_at_append list_update_append)
  qed
qed

lemma set2_length: "set2 b r c v = Some b' \<Longrightarrow> length b' = length b"
  by (auto simp: set2_norm2 upd2_def)

lemma those_map_Some:
  "those (map f xs) = Some ys \<Longrightarrow>
   length ys = length xs \<and> (\<forall>k < length xs. f (xs ! k) = Some (ys ! k))"
proof (induction xs arbitrary: ys)
  case Nil
  then show ?case by simp
next
  case (Cons x xs)
  from Cons.prems obtain y ys' where y: "f x = Some y" "those (map f xs) = Some ys'" "ys = y # ys'"
    by (auto split: option.splits)
  from Cons.IH [OF y(2)] y(1,3) show ?case
    by (auto simp: nth_Cons split: nat.splits)
qed

lemma board_at_rows:
  assumes "board_at h b = Some B"
  shows "length B = length b" and "\<And>k. k < length b \<Longrightarrow> row_at h (b ! k) = Some (B ! k)"
  using those_map_Some [OF assms [unfolded board_at_def]] by simp_all

lemma st_get2_board_at:
  assumes "board_at h b = Some B"
  shows "st_get2 h b r c = get2 B r c"
proof (cases "py_index (length b) r")
  case None
  then show ?thesis
    by (simp add: st_get2_def get2_def getitem_def board_at_rows(1) [OF assms])
next
  case (Some k)
  then have "k < length b"
    by (rule py_index_less)
  with Some board_at_rows [OF assms] show ?thesis
    by (simp add: st_get2_def get2_def getitem_def)
qed

lemma unchanged_refl [simp]: "unchanged h h"
  by (simp add: unchanged_def)

lemma unchanged_iff: "unchanged h h' \<longleftrightarrow> (\<exists>rows. h' = h @ rows)"
proof
  assume "unchanged h h'"
  then have "h' = h @ drop (length h) h'"
    by (metis append_take_drop_id unchanged_def)
  then show "\<exists>rows. h' = h @ rows" ..
next
  assume "\<exists>rows. h' = h @ rows"
  then show "unchanged h h'"
    by (auto simp: unchanged_def)
qed

lemma unchanged_trans: "unchanged h h' \<Longrightarrow> unchanged h' h'' \<Longrightarrow> unchanged h h''"
  unfolding unchanged_iff by auto

lemma unchanged_append [simp]: "unchanged h (h @ rows)"
  by (simp add: unchanged_def)

lemma unchanged_row_at:
  assumes "unchanged h h'" "row_at h a = Some row"
  shows "row_at h' a = Some row"
proof -
  from assms(2) have a: "a < length h" "row = h ! a"
    by (auto simp: row_at_def split: if_splits)
  from assms(1) a(1) have "h' ! a = take (length h) h' ! a"
    by simp
  with assms(1) a show ?thesis
    by (simp add: unchanged_def row_at_def)
qed

lemma those_map_cong_Some:
  assumes "those (map f xs) = Some ys" "\<And>x y. x \<in> set xs \<Longrightarrow> f x = Some y \<Longrightarrow> g x = Some y"
  shows "those (map g xs) = Some ys"
  using assms
proof (induction xs arbitrary: ys)
  case Nil
  then show ?case by simp
next
  case (Cons x xs)
  from Cons.prems(1) obtain y ys' where y: "f x = Some y" "those (map f xs) = Some ys'" "ys = y # ys'"
    by (auto split: option.splits)
  from Cons.IH [OF y(2)] Cons.prems(2) have "those (map g xs) = Some ys'"
    by simp
  moreover from Cons.prems(2) y(1) have "g x = Some y"
    by simp
  ultimately show ?case
    by (simp add: y(3))
qed

lemma unchanged_board_at:
  assumes "unchanged h h'" "board_at h b = Some B"
  shows "board_at h' b = Some B"
  using assms(2) unfolding board_at_def
  by (rule those_map_cong_Some) (rule unchanged_row_at [OF assms(1)])

lemma board_at_block: "board_at (h @ rows) (block h rows) = Some rows"
proof -
  have "map (row_at (h @ rows)) (block h rows) = map Some rows"
    by (rule nth_equalityI) (simp_all add: block_def row_at_append)
  moreover have "those (map Some rows) = Some rows"
    by (induction rows) simp_all
  ultimately show ?thesis
    by (simp add: board_at_def)
qed

lemma board_at_valid:
  assumes "board_at h b = Some B"
  shows "\<forall>a\<in>set b. a < length h"
proof
  fix a assume "a \<in> set b"
  then obtain k where "k < length b" "a = b ! k"
    by (auto simp: in_set_conv_nth)
  with board_at_rows(2) [OF assms, of k] show "a < length h"
    by (auto simp: row_at_def split: if_splits)
qed

lemma block_fresh:
  assumes "board_at h b = Some B"
  shows "set (block h rows) \<inter> set b = {}"
  using board_at_valid [OF assms] by (auto simp: block_def)

lemma st_clone_board_eq:
  "board_at h b = Some B \<Longrightarrow> st_clone_board h b = Some (h @ B, block h B)"
  by (simp add: st_clone_board_def block_def)

lemma st_get2_rows:
  "length rows' = length rows \<Longrightarrow> st_get2 (h @ rows') (block h rows) r c = get2 rows' r c"
  using st_get2_block [of h rows' r c] by (simp add: block_def)

lemma st_set2_rows:
  "length rows' = length rows \<Longrightarrow>
   st_set2 (h @ rows') (block h rows) r c v = map_option (\<lambda>rows''. h @ rows'') (set2 rows' r c v)"
  using st_set2_block [of h rows' r c v] by (simp add: block_def)

lemma st_do_jump_refines:
  assumes "board_at h bd = Some B" "do_jump B cr cc mr mc lr lc = Some N"
  shows "st_do_jump h bd cr cc mr mc lr lc = Some (h @ N, block h B) \<and> length N = length B"
proof -
  from assms(2) obtain v B1 B2 B3 x B4 y where
    v: "get2 B cr cc = Some v" and B1: "set2 B lr lc v = Some B1"
    and B2: "set2 B1 cr cc 0 = Some B2" and B3: "set2 B2 mr mc 0 = Some B3"
    and x: "get2 B3 lr lc = Some x"
    and B4: "(if x = 1 \<and> lr = 0 then set2 B3 lr lc 2 else Some B3) = Some B4"
    and y: "get2 B4 lr lc = Some y"
    and N: "(if y = - 1 \<and> lr = ROWS - 1 then set2 B4 lr lc (- 2) else Some B4) = Some N"
    unfolding do_jump_def clone_board_def
    by (auto simp: Option.bind_eq_Some_conv Let_def)
  have l1: "length B1 = length B" using B1 by (rule set2_length)
  have l2: "length B2 = length B" using set2_length [OF B2] l1 by simp
  have l3: "length B3 = length B" using set2_length [OF B3] l2 by simp
  have l4: "length B4 = length B" using B4 l3 by (auto dest: set2_length split: if_splits)
  have l5: "length N = length B" using N l4 by (auto dest: set2_length split: if_splits)
  have s4: "(if x = 1 \<and> lr = 0 then st_set2 (h @ B3) (block h B) lr lc 2 else Some (h @ B3)) =
            Some (h @ B4)"
    using B4 by (auto simp: st_set2_rows [OF l3])
  have s5: "(if y = - 1 \<and> lr = ROWS - 1 then st_set2 (h @ B4) (block h B) lr lc (- 2)
             else Some (h @ B4)) = Some (h @ N)"
    using N by (auto simp: st_set2_rows [OF l4])
  have "st_do_jump h bd cr cc mr mc lr lc = Some (h @ N, block h B)"
    unfolding st_do_jump_def
    by (simp add: st_clone_board_eq [OF assms(1)] st_get2_block v st_set2_block B1
        st_set2_rows [OF l1] B2 st_set2_rows [OF l2] B3 st_get2_rows [OF l3] x s4
        st_get2_rows [OF l4] y s5 del: if_split)
  with l5 show ?thesis
    by simp
qed

lemma st_try_jump_none:
  assumes "board_at h bd = Some B" "try_jump B cr cc pc d = Some None"
  shows "st_try_jump h bd cr cc pc d = Some None"
proof -
  obtain dr dc where d: "d = (dr, dc)" by (cases d)
  note g = st_get2_board_at [OF assms(1)]
  show ?thesis
  proof (cases "in_bounds (cr + dr) (cc + dc) \<and> in_bounds (cr + 2 * dr) (cc + 2 * dc)")
    case False
    then show ?thesis
      by (auto simp: st_try_jump_def d Let_def)
  next
    case inb: True
    show ?thesis
    proof (cases "get2 B (cr + dr) (cc + dc)")
      case None
      with inb assms(2) show ?thesis
        by (simp add: try_jump_def d Let_def)
    next
      case (Some m)
      show ?thesis
      proof (cases "m \<noteq> 0 \<and> m * pc < 0")
        case False
        with inb Some show ?thesis
          by (auto simp: st_try_jump_def d Let_def g)
      next
        case True
        show ?thesis
        proof (cases "get2 B (cr + 2 * dr) (cc + 2 * dc)")
          case None
          with inb Some True assms(2) show ?thesis
            by (simp add: try_jump_def d Let_def)
        next
          case l: (Some l)
          show ?thesis
          proof (cases "l = 0")
            case False
            with inb Some True l show ?thesis
              by (simp add: st_try_jump_def d Let_def g)
          next
            case l0: True
            with inb Some True l assms(2) show ?thesis
              by (simp add: try_jump_def d Let_def)
          qed
        qed
      qed
    qed
  qed
qed

lemma st_try_jump_some:
  assumes "board_at h bd = Some B" "try_jump B cr cc pc d = Some (Some (N, lr, lc))"
  shows "st_try_jump h bd cr cc pc d = Some (Some (h @ N, block h B, lr, lc)) \<and>
         length N = length B"
proof -
  obtain dr dc where d: "d = (dr, dc)" by (cases d)
  from assms(2) have l: "lr = cr + 2 * dr" "lc = cc + 2 * dc"
    and dj: "do_jump B cr cc (cr + dr) (cc + dc) lr lc = Some N"
    and c: "in_bounds (cr + dr) (cc + dc) \<and> in_bounds lr lc"
    and m: "\<exists>m. get2 B (cr + dr) (cc + dc) = Some m \<and> m \<noteq> 0 \<and> m * pc < 0"
    and e: "get2 B lr lc = Some 0"
    unfolding try_jump_def d
    by (auto simp: Let_def split: option.splits if_splits)
  from st_do_jump_refines [OF assms(1) dj] m e c l show ?thesis
    unfolding st_try_jump_def d
    by (auto simp: st_get2_board_at [OF assms(1)] Let_def)
qed

lemma st_normal_scan_refines:
  assumes "board_at h b = Some B"
  shows "st_normal_scan h b r c ds = normal_scan B r c ds"
proof (induction ds)
  case Nil
  show ?case by simp
next
  case (Cons d ds)
  obtain dr dc where d: "d = (dr, dc)" by (cases d)
  with Cons show ?case
    by (auto simp: st_get2_board_at [OF assms] Let_def split: option.splits)
qed

lemma st_walk_path_refines:
  assumes "walk_path N cr cc path = Some (N', er, ec)" "length N = length B"
  shows "st_walk_path (h @ N) (block h B) cr cc path = Some (h @ N', er, ec) \<and>
         length N' = length B"
  using assms
proof (induction path arbitrary: N cr cc)
  case Nil
  then show ?case by simp
next
  case (Cons x path)
  obtain nr nc where x: "x = (nr, nc)" by (cases x)
  show ?case
  proof (cases "\<bar>nr - cr\<bar> = 2 \<or> \<bar>nc - cc\<bar> = 2")
    case True
    with Cons.prems(1) obtain N1 where
      N1: "set2 N ((nr + cr) div 2) ((nc + cc) div 2) 0 = Some N1"
      and w: "walk_path N1 nr nc path = Some (N', er, ec)"
      by (auto simp: x split: option.splits)
    have "length N1 = length B"
      using set2_length [OF N1] Cons.prems(2) by simp
    from Cons.IH [OF w this] True N1 show ?thesis
      by (simp add: x st_set2_rows [OF Cons.prems(2)])
  next
    case False
    with Cons.prems(1) have "walk_path N nr nc path = Some (N', er, ec)"
      by (simp add: x)
    from Cons.IH [OF this Cons.prems(2)] False show ?thesis
      by (simp add: x)
  qed
qed

lemma st_apply_move_refines:
  assumes "board_at h b = Some B" "apply_move B (sr, sc, path) = Some B'"
  shows "st_apply_move h b (sr, sc, path) = Some (h @ B', block h B) \<and> length B' = length B"
proof -
  from assms(2) obtain piece B0 W er ec B1 x B2 y where
    v: "get2 B sr sc = Some piece" and B0: "set2 B sr sc 0 = Some B0"
    and W: "walk_path B0 sr sc path = Some (W, er, ec)"
    and B1: "set2 W er ec piece = Some B1"
    and x: "get2 B1 er ec = Some x"
    and B2: "(if x = 1 \<and> er = 0 then set2 B1 er ec 2 else Some B1) = Some B2"
    and y: "get2 B2 er ec = Some y"
    and N: "(if y = - 1 \<and> er = ROWS - 1 then set2 B2 er ec (- 2) else Some B2) = Some B'"
    unfolding apply_move_def clone_board_def
    by (auto simp: Option.bind_eq_Some_conv Let_def)
  have l0: "length B0 = length B" using B0 by (rule set2_length)
  note sw = st_walk_path_refines [OF W l0, of h]
  then have lw: "length W = length B" by simp
  have l1: "length B1 = length B" using set2_length [OF B1] lw by simp
  have l2: "length B2 = length B" using B2 l1 by (auto dest: set2_length split: if_splits)
  have l3: "length B' = length B" using N l2 by (auto dest: set2_length split: if_splits)
  have s2: "(if x = 1 \<and> er = 0 then st_set2 (h @ B1) (block h B) er ec 2 else Some (h @ B1)) =
            Some (h @ B2)"
    using B2 by (auto simp: st_set2_rows [OF l1])
  have s3: "(if y = - 1 \<and> er = ROWS - 1 then st_set2 (h @ B2) (block h B) er ec (- 2)
             else Some (h @ B2)) = Some (h @ B')"
    using N by (auto simp: st_set2_rows [OF l2])
  have "st_apply_move h b (sr, sc, path) = Some (h @ B', block h B)"
    unfolding st_apply_move_def
    by (simp add: st_clone_board_eq [OF assms(1)] st_get2_block v st_set2_block B0 sw
        st_set2_rows [OF lw] B1 st_get2_rows [OF l1] x s2 st_get2_rows [OF l2] y s3
        del: if_split)
  with l3 show ?thesis
    by simp
qed

lemma st_dfs_refines:
  "board_at h bd = Some B \<Longrightarrow> occupied B < fuel \<Longrightarrow> dfs B cr cc path = Some ps \<Longrightarrow>
   \<exists>h'. st_dfs fuel h bd cr cc path = Some (h', ps) \<and> unchanged h h'"
proof (induction fuel arbitrary: h bd B cr cc path ps)
  case 0
  then show ?case by simp
next
  case (Suc fuel)
  from Suc.prems(3) obtain pc found caps where
    pc: "get2 B cr cc = Some pc"
    and fd: "for_dirs (try_jump B cr cc pc) (\<lambda>(nb, lr, lc). dfs nb lr lc (path @ [(lr, lc)]))
               (scan_dirs pc) = Some (found, caps)"
    and ps: "ps = (if \<not> found \<and> path \<noteq> [] then caps @ [path] else caps)"
    by (subst (asm) dfs.simps) (auto split: option.splits)
  have loop: "\<exists>h3. st_for_dirs (\<lambda>h d. st_try_jump h bd cr cc pc d)
                  (\<lambda>h (nb, lr, lc). st_dfs fuel h nb lr lc (path @ [(lr, lc)])) hk ds =
                Some (h3, f, cs) \<and> unchanged hk h3"
    if "for_dirs (try_jump B cr cc pc) (\<lambda>(nb, lr, lc). dfs nb lr lc (path @ [(lr, lc)])) ds =
          Some (f, cs)" "board_at hk bd = Some B" for ds hk f cs
    using that
  proof (induction ds arbitrary: hk f cs)
    case Nil
    then show ?case by simp
  next
    case (Cons d ds)
    from Cons.prems(1) consider
      (none) "try_jump B cr cc pc d = Some None"
        "for_dirs (try_jump B cr cc pc) (\<lambda>(nb, lr, lc). dfs nb lr lc (path @ [(lr, lc)])) ds =
           Some (f, cs)"
    | (jump) N lr lc sub f' cs' where "try_jump B cr cc pc d = Some (Some (N, lr, lc))"
        "dfs N lr lc (path @ [(lr, lc)]) = Some sub"
        "for_dirs (try_jump B cr cc pc) (\<lambda>(nb, lr, lc). dfs nb lr lc (path @ [(lr, lc)])) ds =
           Some (f', cs')" "f = True" "cs = sub @ cs'"
      by (auto split: option.splits)
    then show ?case
    proof cases
      case none
      from Cons.IH [OF none(2) Cons.prems(2)] st_try_jump_none [OF Cons.prems(2) none(1)]
      show ?thesis
        by simp
    next
      case jump
      from st_try_jump_some [OF Cons.prems(2) jump(1)] have
        tj: "st_try_jump hk bd cr cc pc d = Some (Some (hk @ N, block hk B, lr, lc))"
        and len: "length N = length B"
        by simp_all
      have bN: "board_at (hk @ N) (block hk B) = Some N"
        using board_at_block [of hk N] len by (simp add: block_def)
      from try_jump_occupied [OF pc jump(1)] Suc.prems(2) have "occupied N < fuel"
        by simp
      from Suc.IH [OF bN this jump(2)] obtain h2 where
        h2: "st_dfs fuel (hk @ N) (block hk B) lr lc (path @ [(lr, lc)]) = Some (h2, sub)"
        "unchanged (hk @ N) h2"
        by blast
      have u2: "unchanged hk h2"
        using unchanged_trans [OF unchanged_append h2(2)] .
      from Cons.IH [OF jump(3) unchanged_board_at [OF u2 Cons.prems(2)]] obtain h3 where
        h3: "st_for_dirs (\<lambda>h d. st_try_jump h bd cr cc pc d)
                  (\<lambda>h (nb, lr, lc). st_dfs fuel h nb lr lc (path @ [(lr, lc)])) h2 ds =
                Some (h3, f', cs')" "unchanged h2 h3"
        by blast
      from tj h2(1) h3(1) jump(4,5) unchanged_trans [OF u2 h3(2)] show ?thesis
        by simp
    qed
  qed
  from loop [OF fd Suc.prems(1)] obtain h' where
    "st_for_dirs (\<lambda>h d. st_try_jump h bd cr cc pc d)
                  (\<lambda>h (nb, lr, lc). st_dfs fuel h nb lr lc (path @ [(lr, lc)])) h (scan_dirs pc) =
                Some (h', found, caps)" "unchanged h h'"
    by blast
  then show ?case
    by (simp add: st_get2_board_at [OF Suc.prems(1)] pc ps)
qed

lemma st_get_piece_moves_refines:
  assumes "board_at h b = Some B" "occupied B < fuel" "get_piece_moves B r c = Some (nm, cm)"
  shows "\<exists>h'. st_get_piece_moves fuel h b r c = Some (h', nm, cm) \<and> unchanged h h'"
proof -
  from assms(3) obtain piece where piece: "get2 B r c = Some piece"
    by (auto simp: get_piece_moves_def split: option.splits)
  show ?thesis
  proof (cases "piece = 0")
    case True
    with assms(3) piece show ?thesis
      by (simp add: get_piece_moves_def st_get_piece_moves_def st_get2_board_at [OF assms(1)])
  next
    case False
    define dirs where "dirs = (if \<bar>piece\<bar> = 2 then king_dirs else man_dirs (if piece > 0 then 1 else - 1))"
    from assms(3) piece False have ns: "normal_scan B r c dirs = Some nm"
      and d: "dfs B r c [] = Some cm"
      by (auto simp: get_piece_moves_def Let_def dirs_def split: option.splits)
    from st_dfs_refines [OF assms(1,2) d] obtain h' where
      "st_dfs fuel h b r c [] = Some (h', cm)" "unchanged h h'"
      by blast
    with piece False ns show ?thesis
      by (simp add: st_get_piece_moves_def st_get2_board_at [OF assms(1)] Let_def
          dirs_def [symmetric] st_normal_scan_refines [OF assms(1)])
  qed
qed

text \<open>
  Claim C8. Let the board \<open>b\<close> hold a well-formed value \<open>B\<close> in the store. Then
  \<open>get_piece_moves\<close> on \<open>b\<close> (with fuel above the number of pieces) returns the moves
  that the value \<open>B\<close> has, and \<open>apply_move\<close> on \<open>b\<close> returns a board of fresh row
  objects that holds the value of the applied move; after either call every object that
  was in the store before has its old value, so \<open>b\<close> still holds \<open>B\<close>.
\<close>

theorem input_board_unchanged:
  assumes "board_at h b = Some B" "wf_board B" "occupied B < fuel"
    and "in_bounds r c" "in_bounds sr sc" "\<forall>(r, c)\<in>set path. in_bounds r c"
  shows "(\<exists>h' nm cm. st_get_piece_moves fuel h b r c = Some (h', nm, cm) \<and>
            get_piece_moves B r c = Some (nm, cm) \<and> unchanged h h' \<and> board_at h' b = Some B) \<and>
         (\<exists>h' nb B'. st_apply_move h b (sr, sc, path) = Some (h', nb) \<and>
            apply_move B (sr, sc, path) = Some B' \<and> unchanged h h' \<and> board_at h' b = Some B \<and>
            board_at h' nb = Some B' \<and> set nb \<inter> set b = {})"
proof
  from get_piece_moves_wf [OF assms(2,4)] obtain nm cm where
    g: "get_piece_moves B r c = Some (nm, cm)"
    by blast
  from st_get_piece_moves_refines [OF assms(1,3) g] obtain h' where
    h': "st_get_piece_moves fuel h b r c = Some (h', nm, cm)" "unchanged h h'"
    by blast
  with g unchanged_board_at [OF h'(2) assms(1)]
  show "\<exists>h' nm cm. st_get_piece_moves fuel h b r c = Some (h', nm, cm) \<and>
            get_piece_moves B r c = Some (nm, cm) \<and> unchanged h h' \<and> board_at h' b = Some B"
    by blast
next
  obtain er ec where e: "last ((sr, sc) # path) = (er, ec)"
    by (cases "last ((sr, sc) # path)")
  from apply_move_wf [OF assms(2,5,6) e] obtain B' where
    a: "apply_move B (sr, sc, path) = Some B'"
    by blast
  from st_apply_move_refines [OF assms(1) a] have
    s: "st_apply_move h b (sr, sc, path) = Some (h @ B', block h B)" and len: "length B' = length B"
    by simp_all
  have "board_at (h @ B') (block h B) = Some B'"
    using board_at_block [of h B'] len by (simp add: block_def)
  with s a unchanged_board_at [OF unchanged_append assms(1)] block_fresh [OF assms(1)]
  show "\<exists>h' nb B'. st_apply_move h b (sr, sc, path) = Some (h', nb) \<and>
            apply_move B (sr, sc, path) = Some B' \<and> unchanged h h' \<and> board_at h' b = Some B \<and>
            board_at h' nb = Some B' \<and> set nb \<inter> set b = {}"
    by (intro exI [of _ "h @ B'"] exI [of _ "block h B"] exI [of _ B']) simp
qed

definition fork_store :: store where
  "fork_store = fork_board"

definition fork_ref :: board_ref where
  "fork_ref = [0, 1, 2, 3, 4, 5, 6, 7]"

text \<open>
  The board with the fork in the store: the search clones it three times and the move once,
  and the eight rows of the input stay as they were.
\<close>

theorem input_board_unchanged_witness:
  "board_at fork_store fork_ref = Some fork_board \<and> wf_board fork_board \<and>
   occupied fork_board < 5 \<and> in_bounds 6 3 \<and>
   (\<exists>h'. st_get_piece_moves 5 fork_store fork_ref 6 3 =
           Some (h', [], [[(4, 1), (2, 3)], [(4, 5)]]) \<and>
         board_at h' fork_ref = Some fork_board) \<and>
   (\<exists>h' nb. st_apply_move fork_store fork_ref (6, 3, [(4, 1), (2, 3)]) = Some (h', nb) \<and>
         board_at h' fork_ref = Some fork_board \<and> board_at h' nb = Some fork_after)"
proof -
  have b: "board_at fork_store fork_ref = Some fork_board"
    by code_simp
  have o: "occupied fork_board < 5"
    by code_simp
  have ib: "in_bounds 6 3"
    by (simp add: in_bounds_def ROWS_def COLS_def)
  have p: "\<forall>(r, c)\<in>set [(4, 1), (2, 3)]. in_bounds r c"
    by (simp add: in_bounds_def ROWS_def COLS_def)
  have g: "get_piece_moves fork_board 6 3 = Some ([], [[(4, 1), (2, 3)], [(4, 5)]])"
    by code_simp
  have a: "apply_move fork_board (6, 3, [(4, 1), (2, 3)]) = Some fork_after"
    by code_simp
  note inst = input_board_unchanged [OF b wf_fork_board o ib ib p]
  from inst g have 1: "\<exists>h'. st_get_piece_moves 5 fork_store fork_ref 6 3 =
           Some (h', [], [[(4, 1), (2, 3)], [(4, 5)]]) \<and>
         board_at h' fork_ref = Some fork_board"
    by auto
  from inst a have 2: "\<exists>h' nb. st_apply_move fork_store fork_ref (6, 3, [(4, 1), (2, 3)]) =
           Some (h', nb) \<and>
         board_at h' fork_ref = Some fork_board \<and> board_at h' nb = Some fork_after"
    by auto
  from b wf_fork_board o ib 1 2 show ?thesis
    by blast
qed

end
